theory Spec2Isabelle
  imports Main
begin

section \<open>The class list writer of HotSpot (src/hotspot/share/cds/classListWriter.cpp)\<close>

text \<open>
  A shallow embedding of \<^verbatim>\<open>ClassListWriter\<close>: the id table with its counter, the
  filter and the dependency check of \<^verbatim>\<open>write_to_stream\<close>, the line it prints, and
  \<^verbatim>\<open>write\<close>. All operations run under \<^verbatim>\<open>ClassListFile_lock\<close>
  (\<^verbatim>\<open>assert_locked\<close>); the model is the sequential behaviour under that lock.
\<close>

subsection \<open>Data\<close>

text \<open>
  An \<^verbatim>\<open>InstanceKlass*\<close> is an address. What the writer reads through the pointer
  \<^verbatim>\<open>k\<close> is a record: \<open>self\<close> is the pointer itself (the key of the id table),
  \<open>java_super\<close> is \<open>None\<close> for \<^verbatim>\<open>nullptr\<close>.
\<close>

type_synonym klass_ptr = nat

record klass =
  self :: klass_ptr
  name :: string
  is_builtin_loader :: bool
  is_shared :: bool
  java_super :: "klass_ptr option"
  local_interfaces :: "klass_ptr list"
  is_hidden :: bool
  module_is_patched :: bool

text \<open>A \<^verbatim>\<open>ClassFileStream\<close>; \<open>source\<close> is \<open>None\<close> for \<^verbatim>\<open>nullptr\<close>.\<close>

record class_file_stream =
  source :: "string option"

text \<open>
  The output stream, as the sequence of calls it has received. Each constructor is one
  \<^verbatim>\<open>print\<close> of the source with its format string, \<^verbatim>\<open>cr\<close> or \<^verbatim>\<open>flush\<close>.
\<close>

datatype stream_call =
    Print_cr string            \<comment> \<open>\<^verbatim>\<open>print_cr(s)\<close>, a whole line\<close>
  | Print_name_id string int   \<comment> \<open>\<^verbatim>\<open>print("%s id: %d", name, id)\<close>\<close>
  | Print_super int            \<comment> \<open>\<^verbatim>\<open>print(" super: %d", id)\<close>\<close>
  | Print_interfaces           \<comment> \<open>\<^verbatim>\<open>print(" interfaces:")\<close>\<close>
  | Print_intf int             \<comment> \<open>\<^verbatim>\<open>print(" %d", id)\<close>\<close>
  | Print_source string        \<comment> \<open>\<^verbatim>\<open>print(" source: %s", s)\<close>\<close>
  | Cr
  | Flush

text \<open>
  The static state: \<^verbatim>\<open>_id_table\<close> (\<open>None\<close> while it is \<^verbatim>\<open>nullptr\<close>),
  \<^verbatim>\<open>_total_ids\<close>, the stream written to, the flag \<^verbatim>\<open>DumpLoadedClassList\<close> and the
  warnings logged.
\<close>

record wstate =
  id_table :: "(klass_ptr \<rightharpoonup> int) option"
  total_ids :: int
  stream :: "stream_call list"
  DumpLoadedClassList :: "string option"
  log_warnings :: "string list"

text \<open>
  What ends a call other than a return: a failed \<^verbatim>\<open>assert\<close> (the assertions are
  those of a debug build, which stops there), the overflow of the C++ \<^verbatim>\<open>int\<close> counter
  (undefined behaviour), a null pointer read, a string read past its end.
\<close>

datatype failure =
    Assert_is_enabled
  | Assert_super_not_null
  | Signed_overflow
  | Null_dereference
  | Read_past_end

text \<open>The \<^verbatim>\<open>return\<close> statements of \<^verbatim>\<open>write_to_stream\<close>, by source line.\<close>

datatype exit =
    Ret_no_source          \<comment> \<open>line 114\<close>
  | Ret_not_file           \<comment> \<open>line 117\<close>
  | Ret_shared             \<comment> \<open>line 121\<close>
  | Ret_not_registered     \<comment> \<open>line 124\<close>
  | Ret_species            \<comment> \<open>line 130\<close>
  | Ret_super_no_id        \<comment> \<open>line 136\<close>
  | Ret_intf_no_id         \<comment> \<open>line 144\<close>
  | Ret_hidden             \<comment> \<open>line 150\<close>
  | Ret_patched            \<comment> \<open>line 154\<close>
  | Ret_written            \<comment> \<open>the end of the function, line 187\<close>

subsection \<open>The id table\<close>

definition INT_MAX :: int where
  "INT_MAX = 2147483647"

text \<open>The static initialisers of lines 37, 72 and 73: no stream yet, no table, counter 0.\<close>

definition boot :: "string option \<Rightarrow> wstate" where
  "boot d = \<lparr>id_table = None, total_ids = 0, stream = [],
             DumpLoadedClassList = d, log_warnings = []\<rparr>"

text \<open>
  \<^verbatim>\<open>init\<close>: with \<^verbatim>\<open>-XX:DumpLoadedClassList=<file>\<close> the stream is a new file
  stream, and the header is printed to it.
\<close>

definition init :: "wstate \<Rightarrow> wstate" where
  "init s =
     (case DumpLoadedClassList s of
        None \<Rightarrow> s
      | Some list_file \<Rightarrow>
          s\<lparr>stream :=
               [Print_cr ''# NOTE: Do not modify this file.'',
                Print_cr ''#'',
                Print_cr ''# This file is generated via the -XX:DumpLoadedClassList=<class_list_file> option'',
                Print_cr ''# and is used at CDS archive dump time (see -Xshare:dump).'',
                Print_cr ''#'']\<rparr>)"

text \<open>The entries of the table; no entries while the table is not allocated.\<close>

definition entries :: "wstate \<Rightarrow> klass_ptr \<rightharpoonup> int" where
  "entries s = (case id_table s of None \<Rightarrow> Map.empty | Some t \<Rightarrow> t)"

text \<open>
  \<^verbatim>\<open>get_id\<close>: allocates the table when it is null, then \<^verbatim>\<open>put_if_absent\<close>; a new
  entry gets \<^verbatim>\<open>_total_ids++\<close>. Incrementing an \<^verbatim>\<open>int\<close> that is \<^verbatim>\<open>INT_MAX\<close> is
  undefined in C++: the model fails there.
\<close>

definition get_id :: "klass_ptr \<Rightarrow> wstate \<Rightarrow> failure + (int \<times> wstate)" where
  "get_id k s =
     (let t = (case id_table s of None \<Rightarrow> Map.empty | Some t \<Rightarrow> t) in
      case t k of
        Some v \<Rightarrow> Inr (v, s\<lparr>id_table := Some t\<rparr>)
      | None \<Rightarrow>
          if total_ids s = INT_MAX then Inl Signed_overflow
          else Inr (total_ids s,
                    s\<lparr>id_table := Some (t(k \<mapsto> total_ids s)),
                      total_ids := total_ids s + 1\<rparr>))"

definition has_id :: "klass_ptr \<Rightarrow> wstate \<Rightarrow> bool" where
  "has_id k s = (case id_table s of Some t \<Rightarrow> t k \<noteq> None | None \<Rightarrow> False)"

definition handle_class_unloading :: "klass_ptr \<Rightarrow> wstate \<Rightarrow> wstate" where
  "handle_class_unloading klass s =
     (case id_table s of
        Some t \<Rightarrow> s\<lparr>id_table := Some (t(klass := None))\<rparr>
      | None \<Rightarrow> s)"

subsection \<open>Writing one class\<close>

definition print :: "stream_call \<Rightarrow> wstate \<Rightarrow> wstate" where
  "print c s = s\<lparr>stream := stream s @ [c]\<rparr>"

text \<open>\<^verbatim>\<open>cfs == nullptr || cfs->source() == nullptr\<close> is \<open>cfs_source cfs = None\<close>.\<close>

definition cfs_source :: "class_file_stream option \<Rightarrow> string option" where
  "cfs_source cfs = (case cfs of None \<Rightarrow> None | Some c \<Rightarrow> source c)"

definition species_marker :: string where
  "species_marker = ''_ClassSpecializer_generateConcreteSpeciesCode''"

text \<open>The loop of lines 141 to 146: it returns at the first interface without an id.\<close>

fun interfaces_have_id :: "klass_ptr list \<Rightarrow> wstate \<Rightarrow> bool" where
  "interfaces_have_id [] s = True"
| "interfaces_have_id (intf # rest) s =
     (if \<not> has_id intf s then False else interfaces_have_id rest s)"

text \<open>The loop of lines 168 to 171.\<close>

fun print_interface_ids :: "klass_ptr list \<Rightarrow> wstate \<Rightarrow> failure + wstate" where
  "print_interface_ids [] s = Inr s"
| "print_interface_ids (intf # rest) s =
     (case get_id intf s of
        Inl e \<Rightarrow> Inl e
      | Inr (v, s1) \<Rightarrow> print_interface_ids rest (print (Print_intf v) s1))"

text \<open>
  \<^verbatim>\<open>cfs->source() + n\<close> printed with \<^verbatim>\<open>%s\<close>: the string from its \<open>n\<close>-th character.
  Beyond the terminating zero the read is outside the string.
\<close>

definition source_from :: "nat \<Rightarrow> class_file_stream option \<Rightarrow> failure + string" where
  "source_from n cfs =
     (case cfs of
        None \<Rightarrow> Inl Null_dereference
      | Some c \<Rightarrow>
          (case source c of
             None \<Rightarrow> Inl Null_dereference
           | Some src \<Rightarrow> if length src < n then Inl Read_past_end else Inr (drop n src)))"

text \<open>
  Lines 159 to 183, the fields of a class of a loader that is not builtin. \<open>windows\<close> is
  the macro \<^verbatim>\<open>_WINDOWS\<close>.
\<close>

definition print_unregistered ::
  "bool \<Rightarrow> klass \<Rightarrow> class_file_stream option \<Rightarrow> wstate \<Rightarrow> failure + wstate" where
  "print_unregistered windows k cfs s =
     (case java_super k of
        None \<Rightarrow> Inl Assert_super_not_null
      | Some super \<Rightarrow>
          (case get_id super s of
             Inl e \<Rightarrow> Inl e
           | Inr (sv, s1) \<Rightarrow>
               (case (if local_interfaces k \<noteq> []
                      then print_interface_ids (local_interfaces k)
                             (print Print_interfaces (print (Print_super sv) s1))
                      else Inr (print (Print_super sv) s1)) of
                  Inl e \<Rightarrow> Inl e
                | Inr s2 \<Rightarrow>
                    (case source_from (if windows then 6 else 5) cfs of
                       Inl e \<Rightarrow> Inl e
                     | Inr p \<Rightarrow> Inr (print (Print_source p) s2)))))"

text \<open>Lines 157 to 187.\<close>

definition print_line ::
  "bool \<Rightarrow> klass \<Rightarrow> class_file_stream option \<Rightarrow> wstate \<Rightarrow> failure + wstate" where
  "print_line windows k cfs s =
     (case get_id (self k) s of
        Inl e \<Rightarrow> Inl e
      | Inr (v, s1) \<Rightarrow>
          (case (if \<not> is_builtin_loader k
                 then print_unregistered windows k cfs (print (Print_name_id (name k) v) s1)
                 else Inr (print (Print_name_id (name k) v) s1)) of
             Inl e \<Rightarrow> Inl e
           | Inr s2 \<Rightarrow> Inr (print Flush (print Cr s2))))"

text \<open>
  Lines 111 to 122, for a class of a loader that is not builtin: \<open>None\<close> when no
  \<^verbatim>\<open>return\<close> is taken. \<^verbatim>\<open>strncmp(cfs->source(), "file:", 5) != 0\<close> compares the
  first five characters.
\<close>

definition check_source :: "klass \<Rightarrow> class_file_stream option \<Rightarrow> exit option" where
  "check_source k cfs =
     (if \<not> is_shared k then
        (case cfs_source cfs of
           None \<Rightarrow> Some Ret_no_source
         | Some src \<Rightarrow> if take 5 src \<noteq> ''file:'' then Some Ret_not_file else None)
      else Some Ret_shared)"

text \<open>
  Lines 109 to 126. \<open>registered\<close> is what
  \<^verbatim>\<open>SystemDictionaryShared::add_unregistered_class\<close> answers for \<open>k\<close>: that function is
  not part of this file, and its answer is a parameter.
\<close>

definition check_unregistered ::
  "bool \<Rightarrow> klass \<Rightarrow> class_file_stream option \<Rightarrow> exit option" where
  "check_unregistered registered k cfs =
     (if \<not> is_builtin_loader k then
        (case check_source k cfs of
           Some r \<Rightarrow> Some r
         | None \<Rightarrow> if \<not> registered then Some Ret_not_registered else None)
      else None)"

text \<open>The block of lines 133 to 147.\<close>

definition check_dependencies :: "klass \<Rightarrow> wstate \<Rightarrow> exit option" where
  "check_dependencies k s =
     (if (case java_super k of None \<Rightarrow> False | Some super \<Rightarrow> \<not> has_id super s)
        then Some Ret_super_no_id
      else if \<not> interfaces_have_id (local_interfaces k) s then Some Ret_intf_no_id
      else None)"

text \<open>\<^verbatim>\<open>write_to_stream\<close>. The result names the \<^verbatim>\<open>return\<close> taken.\<close>

definition write_to_stream ::
  "bool \<Rightarrow> bool \<Rightarrow> klass \<Rightarrow> class_file_stream option \<Rightarrow> wstate \<Rightarrow> failure + (exit \<times> wstate)" where
  "write_to_stream windows registered k cfs s =
     (case check_unregistered registered k cfs of
        Some r \<Rightarrow> Inr (r, s)
      | None \<Rightarrow>
          if cfs_source cfs = Some species_marker then Inr (Ret_species, s)
          else
            (case check_dependencies k s of
               Some r \<Rightarrow> Inr (r, s)
             | None \<Rightarrow>
                 if is_hidden k then Inr (Ret_hidden, s)
                 else if module_is_patched k then Inr (Ret_patched, s)
                 else
                   (case print_line windows k cfs s of
                      Inl e \<Rightarrow> Inl e
                    | Inr s1 \<Rightarrow> Inr (Ret_written, s1))))"



subsection \<open>Runs\<close>

text \<open>A run of the registry alone: calls of \<^verbatim>\<open>get_id\<close> and unload notifications.\<close>

datatype registry_op = Get_id klass_ptr | Remove klass_ptr

text \<open>
  The run returns, for each \<^verbatim>\<open>get_id\<close>, the class, the id returned, and whether the
  class had no entry before the call.
\<close>

fun run_registry ::
  "registry_op list \<Rightarrow> wstate \<Rightarrow> failure + ((klass_ptr \<times> int \<times> bool) list \<times> wstate)" where
  "run_registry [] s = Inr ([], s)"
| "run_registry (Get_id k # ops) s =
     (case get_id k s of
        Inl e \<Rightarrow> Inl e
      | Inr (v, s1) \<Rightarrow>
          (case run_registry ops s1 of
             Inl e \<Rightarrow> Inl e
           | Inr (tr, s2) \<Rightarrow> Inr ((k, v, \<not> has_id k s) # tr, s2)))"
| "run_registry (Remove k # ops) s = run_registry ops (handle_class_unloading k s)"

text \<open>The events the writer sees: a class load, with its arguments, and an unload.\<close>

datatype event =
    Load bool klass "class_file_stream option"
  | Unload klass_ptr

fun run_events :: "bool \<Rightarrow> event list \<Rightarrow> wstate \<Rightarrow> failure + wstate" where
  "run_events windows [] s = Inr s"
| "run_events windows (Load registered k cfs # evs) s =
     (case write_to_stream windows registered k cfs s of
        Inl e \<Rightarrow> Inl e
      | Inr (r, s1) \<Rightarrow> run_events windows evs s1)"
| "run_events windows (Unload k # evs) s =
     run_events windows evs (handle_class_unloading k s)"

subsection \<open>Notions of the properties\<close>

text \<open>The ids returned by the calls of \<^verbatim>\<open>get_id\<close> that created an entry, in order.\<close>

definition fresh_ids :: "(klass_ptr \<times> int \<times> bool) list \<Rightarrow> int list" where
  "fresh_ids tr = map (\<lambda>(k, v, created). v) (filter (\<lambda>(k, v, created). created) tr)"

text \<open>
  The invariant of the table: the ids stored are below the counter, and no two classes
  share one.
\<close>

definition table_ok :: "wstate \<Rightarrow> bool" where
  "table_ok s = (0 \<le> total_ids s
     \<and> (\<forall>k v. entries s k = Some v \<longrightarrow> 0 \<le> v \<and> v < total_ids s)
     \<and> (\<forall>k1 k2 v. entries s k1 = Some v \<and> entries s k2 = Some v \<longrightarrow> k1 = k2))"

text \<open>What \<^verbatim>\<open>%d\<close> prints for an \<^verbatim>\<open>int\<close>: its decimal digits, with a sign when negative.\<close>

fun digits :: "nat \<Rightarrow> string" where
  "digits n = (if n < 10 then [''0123456789'' ! n]
               else digits (n div 10) @ [''0123456789'' ! (n mod 10)])"

declare digits.simps [simp del]

definition dec :: "int \<Rightarrow> string" where
  "dec i = (if i < 0 then ''-'' @ digits (nat (- i)) else digits (nat i))"

text \<open>The characters each call adds to the stream.\<close>

fun render_call :: "stream_call \<Rightarrow> string" where
  "render_call (Print_cr l) = l @ [CHR 0x0A]"
| "render_call (Print_name_id n i) = n @ '' id: '' @ dec i"
| "render_call (Print_super i) = '' super: '' @ dec i"
| "render_call Print_interfaces = '' interfaces:''"
| "render_call (Print_intf i) = '' '' @ dec i"
| "render_call (Print_source p) = '' source: '' @ p"
| "render_call Cr = [CHR 0x0A]"
| "render_call Flush = []"

definition render :: "stream_call list \<Rightarrow> string" where
  "render cs = concat (map render_call cs)"

text \<open>
  The calls that print one record: the name and id, and for a class of a loader that is
  not builtin the id of the super class, the ids of the interfaces and the source.
\<close>

definition line_calls :: "string \<Rightarrow> int \<Rightarrow> (int \<times> int list \<times> string) option \<Rightarrow> stream_call list" where
  "line_calls n v u =
     Print_name_id n v #
     (case u of
        None \<Rightarrow> []
      | Some (sv, ivs, p) \<Rightarrow>
          Print_super sv # (if ivs = [] then [] else Print_interfaces # map Print_intf ivs)
          @ [Print_source p])"

text \<open>The line of the class list for such a record, as text.\<close>

definition line_text :: "string \<Rightarrow> int \<Rightarrow> (int \<times> int list \<times> string) option \<Rightarrow> string" where
  "line_text n v u =
     n @ '' id: '' @ dec v @
     (case u of
        None \<Rightarrow> []
      | Some (sv, ivs, p) \<Rightarrow>
          '' super: '' @ dec sv
          @ (if ivs = [] then [] else '' interfaces:'' @ concat (map (\<lambda>i. '' '' @ dec i) ivs))
          @ '' source: '' @ p)
     @ [CHR 0x0A]"

subsection \<open>Example classes and states\<close>

text \<open>
  Three classes: \<^verbatim>\<open>java.lang.Object\<close> and an interface of the boot loader, and a class
  of an application loader that implements it; the state after the first two were
  written.
\<close>

definition Object_klass :: klass where
  "Object_klass = \<lparr>self = 1, name = ''java/lang/Object'', is_builtin_loader = True,
     is_shared = False, java_super = None, local_interfaces = [], is_hidden = False,
     module_is_patched = False\<rparr>"

definition Runnable_klass :: klass where
  "Runnable_klass = \<lparr>self = 2, name = ''java/lang/Runnable'', is_builtin_loader = True,
     is_shared = False, java_super = Some 1, local_interfaces = [], is_hidden = False,
     module_is_patched = False\<rparr>"

definition Foo_klass :: klass where
  "Foo_klass = \<lparr>self = 3, name = ''Foo'', is_builtin_loader = False,
     is_shared = False, java_super = Some 1, local_interfaces = [2], is_hidden = False,
     module_is_patched = False\<rparr>"

definition jar_cfs :: "string \<Rightarrow> class_file_stream option" where
  "jar_cfs src = Some \<lparr>source = Some src\<rparr>"

definition two_loaded :: wstate where
  "two_loaded = \<lparr>id_table = Some [1 \<mapsto> 0, 2 \<mapsto> 1], total_ids = 2,
     stream = [Print_name_id ''java/lang/Object'' 0, Cr, Flush,
               Print_name_id ''java/lang/Runnable'' 1, Cr, Flush],
     DumpLoadedClassList = Some ''classes.lst'', log_warnings = []\<rparr>"

text \<open>A class of an application loader with no super class: no such class exists in a JVM.\<close>

definition Orphan_klass :: klass where
  "Orphan_klass = \<lparr>self = 4, name = ''Orphan'', is_builtin_loader = False,
     is_shared = False, java_super = None, local_interfaces = [], is_hidden = False,
     module_is_patched = False\<rparr>"

text \<open>
  Reading a log from its first call: \<open>seen\<close> are the ids of the records of the lines
  already ended (by \<^verbatim>\<open>cr\<close> or \<^verbatim>\<open>print_cr\<close>), \<open>current\<close> the ids of the records of the line being
  printed, and \<open>ok\<close> tells whether every id of a super class or interface printed so far
  was among \<open>seen\<close> when it was printed.
\<close>

fun check_call :: "int list \<times> int list \<times> bool \<Rightarrow> stream_call \<Rightarrow> int list \<times> int list \<times> bool" where
  "check_call (seen, current, ok) (Print_name_id n i) = (seen, i # current, ok)"
| "check_call (seen, current, ok) (Print_super i) = (seen, current, ok \<and> i \<in> set seen)"
| "check_call (seen, current, ok) (Print_intf i) = (seen, current, ok \<and> i \<in> set seen)"
| "check_call (seen, current, ok) Cr = (current @ seen, [], ok)"
| "check_call (seen, current, ok) (Print_cr l) = (current @ seen, [], ok)"
| "check_call (seen, current, ok) Print_interfaces = (seen, current, ok)"
| "check_call (seen, current, ok) (Print_source p) = (seen, current, ok)"
| "check_call (seen, current, ok) Flush = (seen, current, ok)"

text \<open>
  A log is in dependency order when every id it references is the id of the record of
  a strictly earlier line.
\<close>

definition dependency_ordered :: "stream_call list \<Rightarrow> bool" where
  "dependency_ordered cs = snd (snd (foldl check_call ([], [], True) cs))"

text \<open>
  The invariant of the writer: the log is in dependency order and ends at the end of a
  line, and every id in the table is the id of a record of the log.
\<close>

definition log_ok :: "wstate \<Rightarrow> bool" where
  "log_ok s =
     (case foldl check_call ([], [], True) (stream s) of
        (seen, current, ok) \<Rightarrow>
          ok \<and> current = [] \<and> (\<forall>k v. entries s k = Some v \<longrightarrow> v \<in> set seen))"

text \<open>
  The same object file loaded again is a new \<^verbatim>\<open>InstanceKlass\<close>, at another address.
\<close>

definition Object_reloaded :: klass where
  "Object_reloaded = Object_klass\<lparr>self := 5\<rparr>"

text \<open>A class with no check against it: its super class is \<^verbatim>\<open>java.lang.Object\<close>.\<close>

definition Plain_klass :: klass where
  "Plain_klass = \<lparr>self = 6, name = ''Plain'', is_builtin_loader = True,
     is_shared = False, java_super = Some 1, local_interfaces = [], is_hidden = False,
     module_is_patched = False\<rparr>"

text \<open>
  The checks as the specification lists them: the six of its section 4.2, numbered as
  there, and the dependency gate of its section 4.3.
\<close>

datatype check =
    Check_shared          \<comment> \<open>1: loader not builtin, class from the shared archive\<close>
  | Check_source          \<comment> \<open>2: loader not builtin, no source or not a local file\<close>
  | Check_registration    \<comment> \<open>3: loader not builtin, registration fails\<close>
  | Check_species         \<comment> \<open>4: source is the marker of generated species classes\<close>
  | Check_hidden          \<comment> \<open>5: hidden class\<close>
  | Check_patched         \<comment> \<open>6: patched module\<close>
  | Dependency_gate       \<comment> \<open>the super class or an interface has no id\<close>

fun check_rejects ::
  "bool \<Rightarrow> klass \<Rightarrow> class_file_stream option \<Rightarrow> wstate \<Rightarrow> check \<Rightarrow> bool" where
  "check_rejects registered k cfs s Check_shared = (\<not> is_builtin_loader k \<and> is_shared k)"
| "check_rejects registered k cfs s Check_source =
     (\<not> is_builtin_loader k
      \<and> (case cfs_source cfs of None \<Rightarrow> True | Some src \<Rightarrow> take 5 src \<noteq> ''file:''))"
| "check_rejects registered k cfs s Check_registration = (\<not> is_builtin_loader k \<and> \<not> registered)"
| "check_rejects registered k cfs s Check_species = (cfs_source cfs = Some species_marker)"
| "check_rejects registered k cfs s Check_hidden = is_hidden k"
| "check_rejects registered k cfs s Check_patched = module_is_patched k"
| "check_rejects registered k cfs s Dependency_gate =
     ((case java_super k of None \<Rightarrow> False | Some sk \<Rightarrow> \<not> has_id sk s)
      \<or> \<not> list_all (\<lambda>i. has_id i s) (local_interfaces k))"

text \<open>The check that makes a \<^verbatim>\<open>return\<close> of \<^verbatim>\<open>write_to_stream\<close>.\<close>

fun check_of_exit :: "exit \<Rightarrow> check option" where
  "check_of_exit Ret_no_source = Some Check_source"
| "check_of_exit Ret_not_file = Some Check_source"
| "check_of_exit Ret_shared = Some Check_shared"
| "check_of_exit Ret_not_registered = Some Check_registration"
| "check_of_exit Ret_species = Some Check_species"
| "check_of_exit Ret_super_no_id = Some Dependency_gate"
| "check_of_exit Ret_intf_no_id = Some Dependency_gate"
| "check_of_exit Ret_hidden = Some Check_hidden"
| "check_of_exit Ret_patched = Some Check_patched"
| "check_of_exit Ret_written = None"

text \<open>
  The order the specification states: the six checks as listed, all before the gate. An
  event is rejected by the first check of the order that rejects it.
\<close>

definition stated_order :: "check list" where
  "stated_order = [Check_shared, Check_source, Check_registration, Check_species,
                   Check_hidden, Check_patched, Dependency_gate]"

text \<open>The order with the gate after the fourth check.\<close>

definition gate_before_hidden_order :: "check list" where
  "gate_before_hidden_order = [Check_shared, Check_source, Check_registration, Check_species,
                               Dependency_gate, Check_hidden, Check_patched]"

definition first_rejecting ::
  "check list \<Rightarrow> bool \<Rightarrow> klass \<Rightarrow> class_file_stream option \<Rightarrow> wstate \<Rightarrow> check option" where
  "first_rejecting order registered k cfs s = find (check_rejects registered k cfs s) order"

text \<open>A hidden class of the boot loader whose super class has no id.\<close>

definition Hidden_klass :: klass where
  "Hidden_klass = \<lparr>self = 7, name = ''Lambda'', is_builtin_loader = True,
     is_shared = False, java_super = Some 1, local_interfaces = [], is_hidden = True,
     module_is_patched = False\<rparr>"



section \<open>The id table: lemmas\<close>

lemma has_id_entries: "has_id k s = (entries s k \<noteq> None)"
  by (simp add: has_id_def entries_def split: option.splits)

lemma entries_boot: "entries (boot d) k = None"
  by (simp add: entries_def boot_def)

lemma get_id_old: "entries s k = Some v \<Longrightarrow> get_id k s = Inr (v, s)"
  by (auto simp: get_id_def entries_def split: option.splits)

lemma get_id_new:
  "entries s k = None \<Longrightarrow> total_ids s \<noteq> INT_MAX \<Longrightarrow>
   get_id k s = Inr (total_ids s,
     s\<lparr>id_table := Some ((entries s)(k \<mapsto> total_ids s)), total_ids := total_ids s + 1\<rparr>)"
  by (auto simp: get_id_def entries_def split: option.splits)

lemma get_id_overflow:
  "entries s k = None \<Longrightarrow> total_ids s = INT_MAX \<Longrightarrow> get_id k s = Inl Signed_overflow"
  by (auto simp: get_id_def entries_def split: option.splits)

lemma get_id_Inr:
  "get_id k s = Inr (v, s1) \<Longrightarrow>
     entries s1 = (entries s)(k \<mapsto> v) \<and> stream s1 = stream s
     \<and> DumpLoadedClassList s1 = DumpLoadedClassList s \<and> log_warnings s1 = log_warnings s
     \<and> total_ids s1 = total_ids s + (if has_id k s then 0 else 1)
     \<and> (has_id k s \<longrightarrow> s1 = s) \<and> (\<not> has_id k s \<longrightarrow> v = total_ids s)"
  by (auto simp: get_id_def entries_def has_id_def Let_def split: option.splits if_splits)

lemma get_id_twice: "get_id k s = Inr (v, s1) \<Longrightarrow> get_id k s1 = Inr (v, s1)"
  by (rule get_id_old) (simp add: get_id_Inr)

lemma entries_unload: "entries (handle_class_unloading k s) = (entries s)(k := None)"
  by (auto simp: handle_class_unloading_def entries_def split: option.splits)

lemma total_ids_unload: "total_ids (handle_class_unloading k s) = total_ids s"
  by (auto simp: handle_class_unloading_def split: option.splits)

lemma stream_unload: "stream (handle_class_unloading k s) = stream s"
  by (auto simp: handle_class_unloading_def split: option.splits)

lemma table_ok_boot: "table_ok (boot d)"
  by (simp add: table_ok_def entries_boot) (simp add: boot_def)

lemma table_ok_get_id:
  assumes "table_ok s" and g: "get_id k s = Inr (v, s1)"
  shows "table_ok s1"
proof (cases "has_id k s")
  case True
  with get_id_Inr [OF g] assms show ?thesis by simp
next
  case False
  with get_id_Inr [OF g] have e: "entries s1 = (entries s)(k \<mapsto> total_ids s)"
    and t: "total_ids s1 = total_ids s + 1" by auto
  show ?thesis
    using assms(1) False unfolding table_ok_def e t has_id_entries
    by (auto split: if_splits) force+
qed

lemma table_ok_unload: "table_ok s \<Longrightarrow> table_ok (handle_class_unloading k s)"
  unfolding table_ok_def entries_unload total_ids_unload
  by (auto split: if_splits)

lemma run_registry_append:
  "run_registry (a @ b) s =
     (case run_registry a s of
        Inl e \<Rightarrow> Inl e
      | Inr (tr1, s1) \<Rightarrow>
          (case run_registry b s1 of
             Inl e \<Rightarrow> Inl e
           | Inr (tr2, s2) \<Rightarrow> Inr (tr1 @ tr2, s2)))"
proof (induction a arbitrary: s)
  case Nil
  show ?case by (simp split: sum.splits)
next
  case (Cons x a)
  show ?case
    by (cases x) (simp_all add: Cons.IH split: sum.splits prod.splits)
qed

lemma run_registry_table_ok:
  "run_registry ops s = Inr (tr, s') \<Longrightarrow> table_ok s \<Longrightarrow> table_ok s'"
proof (induction ops arbitrary: s tr)
  case Nil
  then show ?case by simp
next
  case (Cons x ops)
  show ?case
  proof (cases x)
    case (Get_id k)
    with Cons.prems show ?thesis
      by (auto split: sum.splits prod.splits dest: table_ok_get_id Cons.IH)
  next
    case (Remove k)
    with Cons.prems show ?thesis
      by (auto dest: Cons.IH [OF _ table_ok_unload])
  qed
qed

lemma run_registry_fresh:
  "run_registry ops s = Inr (tr, s') \<Longrightarrow>
     fresh_ids tr = map (\<lambda>i. total_ids s + int i) [0..<length (fresh_ids tr)]
     \<and> total_ids s' = total_ids s + int (length (fresh_ids tr))"
proof (induction ops arbitrary: s tr)
  case Nil
  then show ?case by (simp add: fresh_ids_def)
next
  case (Cons x ops)
  show ?case
  proof (cases x)
    case (Remove k)
    with Cons.prems Cons.IH [of "handle_class_unloading k s" tr] show ?thesis
      by (simp add: total_ids_unload)
  next
    case (Get_id k)
    with Cons.prems obtain v s1 tr1 where g: "get_id k s = Inr (v, s1)"
      and r: "run_registry ops s1 = Inr (tr1, s')" and tr: "tr = (k, v, \<not> has_id k s) # tr1"
      by (auto split: sum.splits prod.splits)
    note ih = Cons.IH [OF r]
    note gi = get_id_Inr [OF g]
    show ?thesis
    proof (cases "has_id k s")
      case True
      with gi ih tr show ?thesis by (simp add: fresh_ids_def)
    next
      case False
      have f: "fresh_ids tr = v # fresh_ids tr1"
        using False tr by (simp add: fresh_ids_def)
      have v: "v = total_ids s" and t1: "total_ids s1 = total_ids s + 1"
        using gi False by auto
      have "map (\<lambda>i. total_ids s + int i) [0..<Suc (length (fresh_ids tr1))]
            = total_ids s # map (\<lambda>i. total_ids s + 1 + int i) [0..<length (fresh_ids tr1)]"
        by (simp add: upt_conv_Cons map_Suc_upt [symmetric] del: upt_Suc)
      with ih f v t1 show ?thesis by simp
    qed
  qed
qed

lemma run_registry_keeps:
  "run_registry ops s = Inr (tr, s') \<Longrightarrow> entries s k = Some v \<Longrightarrow> Remove k \<notin> set ops
     \<Longrightarrow> entries s' k = Some v"
proof (induction ops arbitrary: s tr)
  case Nil
  then show ?case by simp
next
  case (Cons x ops)
  show ?case
  proof (cases x)
    case (Remove k')
    with Cons.prems have "k' \<noteq> k" by auto
    with Remove Cons.prems Cons.IH [of "handle_class_unloading k' s" tr] show ?thesis
      by (simp add: entries_unload)
  next
    case (Get_id k')
    with Cons.prems obtain v' s1 tr1 where g: "get_id k' s = Inr (v', s1)"
      and r: "run_registry ops s1 = Inr (tr1, s')"
      by (auto split: sum.splits prod.splits)
    have "entries s1 k = Some v"
    proof (cases "has_id k' s")
      case True
      with get_id_Inr [OF g] Cons.prems show ?thesis by simp
    next
      case False
      then have "k' \<noteq> k" using Cons.prems by (auto simp: has_id_entries)
      with get_id_Inr [OF g] Cons.prems show ?thesis by simp
    qed
    with Cons.IH [OF r] Cons.prems show ?thesis by simp
  qed
qed

lemma run_registry_total:
  "total_ids s + int (length ops) \<le> INT_MAX \<Longrightarrow> \<exists>tr s'. run_registry ops s = Inr (tr, s')"
proof (induction ops arbitrary: s)
  case Nil
  show ?case by simp
next
  case (Cons x ops)
  show ?case
  proof (cases x)
    case (Remove k)
    with Cons.prems Cons.IH [of "handle_class_unloading k s"] show ?thesis
      by (simp add: total_ids_unload)
  next
    case (Get_id k)
    have "\<exists>v s1. get_id k s = Inr (v, s1)"
      using Cons.prems by (auto simp: get_id_def Let_def split: option.splits)
    then obtain v s1 where g: "get_id k s = Inr (v, s1)" by blast
    have "total_ids s1 \<le> total_ids s + 1"
      using get_id_Inr [OF g] by simp
    with Cons.prems have "total_ids s1 + int (length ops) \<le> INT_MAX" by simp
    from Cons.IH [OF this] g Get_id show ?thesis by auto
  qed
qed


lemma registry_run_example:
  "\<exists>s. run_registry ([Get_id 5, Get_id 6, Remove 5] @ [Get_id 5, Get_id 6]) (boot None)
        = Inr ([(5, 0, True), (6, 1, True), (5, 2, True), (6, 1, False)], s)
      \<and> entries s 5 = Some 2 \<and> entries s 6 = Some 1"
  by (simp add: get_id_def handle_class_unloading_def boot_def has_id_def INT_MAX_def entries_def)

section \<open>The line written: lemmas\<close>

lemma render_line:
  "render (line_calls n v u @ [Cr, Flush]) = line_text n v u"
  by (cases u) (auto simp: render_def line_calls_def line_text_def comp_def)

lemma entries_print [simp]: "entries (print c s) = entries s"
  by (simp add: print_def entries_def)

lemma total_ids_print [simp]: "total_ids (print c s) = total_ids s"
  by (simp add: print_def)

lemma stream_print [simp]: "stream (print c s) = stream s @ [c]"
  by (simp add: print_def)

lemma has_id_print [simp]: "has_id k (print c s) = has_id k s"
  by (simp add: has_id_entries)

lemma interfaces_have_id_iff: "interfaces_have_id ks s = (\<forall>i \<in> set ks. has_id i s)"
  by (induction ks) auto

lemma interfaces_have_id_ids:
  "interfaces_have_id ks s \<Longrightarrow> \<exists>ivs. map (entries s) ks = map Some ivs"
proof (induction ks)
  case Nil
  show ?case by simp
next
  case (Cons i ks)
  then obtain ivs where "map (entries s) ks = map Some ivs"
    by (auto split: if_splits)
  moreover from Cons.prems obtain v where "entries s i = Some v"
    by (auto simp: has_id_entries split: if_splits)
  ultimately have "map (entries s) (i # ks) = map Some (v # ivs)" by simp
  then show ?case by blast
qed

lemma print_interface_ids_have:
  "map (entries s) ks = map Some ivs \<Longrightarrow>
   print_interface_ids ks s = Inr (s\<lparr>stream := stream s @ map Print_intf ivs\<rparr>)"
proof (induction ks arbitrary: s ivs)
  case Nil
  then show ?case by simp
next
  case (Cons i ks)
  then obtain v vs where ivs: "ivs = v # vs" and v: "entries s i = Some v"
    and vs: "map (entries s) ks = map Some vs"
    by (cases ivs) auto
  have "map (entries (print (Print_intf v) s)) ks = map Some vs"
    using vs by simp
  from Cons.IH [OF this] show ?case
    by (simp add: get_id_old [OF v] ivs print_def)
qed


lemma get_id_keeps:
  assumes g: "get_id k s = Inr (v, s1)" and e: "entries s i = Some x"
  shows "entries s1 i = Some x"
proof (cases "has_id k s")
  case True
  with get_id_Inr [OF g] e show ?thesis by simp
next
  case False
  with e have "i \<noteq> k" by (auto simp: has_id_entries)
  with get_id_Inr [OF g] e show ?thesis by simp
qed

lemma get_id_keeps_map:
  assumes g: "get_id k s = Inr (v, s1)" and e: "map (entries s) ks = map Some ivs"
  shows "map (entries s1) ks = map Some ivs"
proof -
  have len: "length ks = length ivs" using e by (metis length_map)
  have "\<forall>j < length ks. entries s1 (ks ! j) = Some (ivs ! j)"
  proof (intro allI impI)
    fix j assume j: "j < length ks"
    have "map (entries s) ks ! j = map Some ivs ! j" using e by simp
    with j len have "entries s (ks ! j) = Some (ivs ! j)" by simp
    then show "entries s1 (ks ! j) = Some (ivs ! j)" by (rule get_id_keeps [OF g])
  qed
  with len show ?thesis by (simp add: list_eq_iff_nth_eq)
qed

lemma source_from_Inr:
  "source_from n cfs = Inr p \<Longrightarrow> \<exists>src. cfs_source cfs = Some src \<and> n \<le> length src \<and> p = drop n src"
  by (auto simp: source_from_def cfs_source_def split: option.splits if_splits)

lemma source_from_ok:
  "cfs_source cfs = Some src \<Longrightarrow> n \<le> length src \<Longrightarrow> source_from n cfs = Inr (drop n src)"
  by (auto simp: source_from_def cfs_source_def split: option.splits if_splits)

lemma print_unregistered_eq:
  assumes "java_super k = Some sk" and sv: "entries s sk = Some sv"
    and iv: "map (entries s) (local_interfaces k) = map Some ivs"
  shows "print_unregistered windows k cfs s =
     (case source_from (if windows then 6 else 5) cfs of
        Inl e \<Rightarrow> Inl e
      | Inr p \<Rightarrow>
          Inr (s\<lparr>stream := stream s @ Print_super sv
                 # (if ivs = [] then [] else Print_interfaces # map Print_intf ivs)
                 @ [Print_source p]\<rparr>))"
proof -
  have e: "(local_interfaces k = []) = (ivs = [])"
    using iv by (metis map_is_Nil_conv)
  have iv': "map (entries (print Print_interfaces (print (Print_super sv) s))) (local_interfaces k)
             = map Some ivs"
    using iv by simp
  note pi = print_interface_ids_have [OF iv']
  show ?thesis
  proof (cases "source_from (if windows then 6 else 5) cfs")
    case (Inl e)
    then show ?thesis
      unfolding print_unregistered_def
      by (simp add: assms(1) get_id_old [OF sv] pi e)
  next
    case (Inr p)
    then show ?thesis
      unfolding print_unregistered_def
      by (simp add: assms(1) get_id_old [OF sv] pi e) (simp add: print_def)
  qed
qed

lemma check_dependencies_None:
  "check_dependencies k s = None \<Longrightarrow>
     (\<forall>sk. java_super k = Some sk \<longrightarrow> (\<exists>sv. entries s sk = Some sv))
     \<and> (\<exists>ivs. map (entries s) (local_interfaces k) = map Some ivs)"
  by (auto simp: check_dependencies_def has_id_entries interfaces_have_id_ids
      split: if_splits option.splits)

lemma print_line_shape:
  assumes d: "check_dependencies k s = None" and p: "print_line windows k cfs s = Inr s'"
  shows "\<exists>v s1 u. get_id (self k) s = Inr (v, s1)
      \<and> s' = s1\<lparr>stream := stream s @ line_calls (name k) v u @ [Cr, Flush]\<rparr>
      \<and> (if is_builtin_loader k then u = None
         else \<exists>sk sv ivs src. u = Some (sv, ivs, drop (if windows then 6 else 5) src)
                \<and> java_super k = Some sk \<and> entries s sk = Some sv
                \<and> map (entries s) (local_interfaces k) = map Some ivs
                \<and> cfs_source cfs = Some src \<and> (if windows then 6 else 5) \<le> length src)"
proof -
  from p obtain v s1 where g: "get_id (self k) s = Inr (v, s1)"
    by (auto simp: print_line_def split: sum.splits)
  note gi = get_id_Inr [OF g]
  let ?s2 = "print (Print_name_id (name k) v) s1"
  show ?thesis
  proof (cases "is_builtin_loader k")
    case True
    with p g have "s' = s1\<lparr>stream := stream s @ line_calls (name k) v None @ [Cr, Flush]\<rparr>"
      using gi by (auto simp: print_line_def line_calls_def print_def)
    with g True show ?thesis by auto
  next
    case False
    with p g obtain s3 where u: "print_unregistered windows k cfs ?s2 = Inr s3"
      and s': "s' = print Flush (print Cr s3)"
      by (auto simp: print_line_def split: sum.splits)
    from u obtain sk where sk: "java_super k = Some sk"
      by (auto simp: print_unregistered_def split: option.splits)
    from d sk obtain sv ivs where sv: "entries s sk = Some sv"
      and iv: "map (entries s) (local_interfaces k) = map Some ivs"
      using check_dependencies_None [OF d] by blast
    have sv2: "entries ?s2 sk = Some sv"
      using get_id_keeps [OF g sv] by simp
    have iv2: "map (entries ?s2) (local_interfaces k) = map Some ivs"
      using get_id_keeps_map [OF g iv] by simp
    note eq = print_unregistered_eq [OF sk sv2 iv2, of windows cfs]
    from u eq obtain p where sf: "source_from (if windows then 6 else 5) cfs = Inr p"
      and s3: "s3 = ?s2\<lparr>stream := stream ?s2 @ Print_super sv
                 # (if ivs = [] then [] else Print_interfaces # map Print_intf ivs)
                 @ [Print_source p]\<rparr>"
      by (auto split: sum.splits)
    from source_from_Inr [OF sf] obtain src where src: "cfs_source cfs = Some src"
      "(if windows then 6 else 5) \<le> length src" "p = drop (if windows then 6 else 5) src"
      by blast
    have "s' = s1\<lparr>stream := stream s @ line_calls (name k) v (Some (sv, ivs, p)) @ [Cr, Flush]\<rparr>"
      using s' s3 gi by (simp add: print_def line_calls_def)
    with g False sk sv iv src show ?thesis
      by auto
  qed
qed

lemma write_to_stream_written:
  "write_to_stream windows registered k cfs s = Inr (Ret_written, s') \<Longrightarrow>
     check_unregistered registered k cfs = None \<and> cfs_source cfs \<noteq> Some species_marker
     \<and> check_dependencies k s = None \<and> \<not> is_hidden k \<and> \<not> module_is_patched k
     \<and> print_line windows k cfs s = Inr s'"
  by (auto simp: write_to_stream_def check_unregistered_def check_source_def check_dependencies_def
      split: option.splits if_splits sum.splits)

lemma write_to_stream_rejected:
  "write_to_stream windows registered k cfs s = Inr (x, s') \<Longrightarrow> x \<noteq> Ret_written \<Longrightarrow> s' = s"
  by (auto simp: write_to_stream_def split: option.splits if_splits sum.splits)

lemma check_unregistered_None:
  "check_unregistered registered k cfs = None \<Longrightarrow> \<not> is_builtin_loader k \<Longrightarrow>
     \<not> is_shared k \<and> registered \<and> (\<exists>src. cfs_source cfs = Some src \<and> take 5 src = ''file:'')"
  by (auto simp: check_unregistered_def check_source_def split: option.splits if_splits)

lemma get_id_Inl: "get_id k s = Inl e \<Longrightarrow> e = Signed_overflow \<and> \<not> has_id k s \<and> total_ids s = INT_MAX"
  by (auto simp: get_id_def has_id_def Let_def split: option.splits if_splits)

lemma get_id_total:
  "has_id k s \<or> total_ids s \<noteq> INT_MAX \<Longrightarrow> \<exists>v s1. get_id k s = Inr (v, s1)"
  by (cases "get_id k s") (auto dest: get_id_Inl)

lemma print_interface_ids_Inl: "print_interface_ids ks s = Inl e \<Longrightarrow> e = Signed_overflow"
  by (induction ks arbitrary: s) (auto split: sum.splits prod.splits dest: get_id_Inl)

lemma source_from_Inl: "source_from n cfs = Inl e \<Longrightarrow> e = Null_dereference \<or> e = Read_past_end"
  by (auto simp: source_from_def split: option.splits if_splits)

lemma print_unregistered_no_assert:
  "java_super k \<noteq> None \<Longrightarrow> print_unregistered windows k cfs s \<noteq> Inl Assert_super_not_null"
  by (auto simp: print_unregistered_def split: option.splits sum.splits if_splits
      dest: get_id_Inl print_interface_ids_Inl source_from_Inl)

lemma print_line_no_assert:
  "is_builtin_loader k \<or> java_super k \<noteq> None \<Longrightarrow>
     print_line windows k cfs s \<noteq> Inl Assert_super_not_null"
  using print_unregistered_no_assert [of k windows cfs]
  by (auto simp: print_line_def split: sum.splits if_splits dest: get_id_Inl)

lemma write_to_stream_Inl:
  "write_to_stream windows registered k cfs s = Inl e \<Longrightarrow>
     check_unregistered registered k cfs = None \<and> cfs_source cfs \<noteq> Some species_marker
     \<and> check_dependencies k s = None \<and> \<not> is_hidden k \<and> \<not> module_is_patched k
     \<and> print_line windows k cfs s = Inl e"
  by (auto simp: write_to_stream_def split: option.splits if_splits sum.splits)

lemma write_to_stream_passes:
  "check_unregistered registered k cfs = None \<Longrightarrow> cfs_source cfs \<noteq> Some species_marker \<Longrightarrow>
   check_dependencies k s = None \<Longrightarrow> \<not> is_hidden k \<Longrightarrow> \<not> module_is_patched k \<Longrightarrow>
   write_to_stream windows registered k cfs s =
     (case print_line windows k cfs s of Inl e \<Rightarrow> Inl e | Inr s1 \<Rightarrow> Inr (Ret_written, s1))"
  by (simp add: write_to_stream_def)

lemma print_line_assert:
  assumes "\<not> is_builtin_loader k" and "java_super k = None"
    and "has_id (self k) s \<or> total_ids s \<noteq> INT_MAX"
  shows "print_line windows k cfs s = Inl Assert_super_not_null"
proof -
  from get_id_total [OF assms(3)] obtain v s1 where "get_id (self k) s = Inr (v, s1)" by blast
  with assms(1,2) show ?thesis
    by (simp add: print_line_def print_unregistered_def)
qed

lemma print_line_total:
  assumes d: "check_dependencies k s = None"
    and c: "has_id (self k) s \<or> total_ids s \<noteq> INT_MAX"
    and b: "\<not> is_builtin_loader k \<longrightarrow>
             java_super k \<noteq> None
             \<and> (\<exists>src. cfs_source cfs = Some src \<and> (if windows then 6 else 5) \<le> length src)"
  shows "\<exists>s'. print_line windows k cfs s = Inr s'"
proof -
  from get_id_total [OF c] obtain v s1 where g: "get_id (self k) s = Inr (v, s1)" by blast
  show ?thesis
  proof (cases "is_builtin_loader k")
    case True
    with g show ?thesis by (simp add: print_line_def)
  next
    case False
    with b obtain sk src where sk: "java_super k = Some sk" and src: "cfs_source cfs = Some src"
      "(if windows then 6 else 5) \<le> length src"
      by auto
    from check_dependencies_None [OF d] sk obtain sv ivs where sv: "entries s sk = Some sv"
      and iv: "map (entries s) (local_interfaces k) = map Some ivs"
      by blast
    let ?s2 = "print (Print_name_id (name k) v) s1"
    have sv2: "entries ?s2 sk = Some sv"
      using get_id_keeps [OF g sv] by simp
    have iv2: "map (entries ?s2) (local_interfaces k) = map Some ivs"
      using get_id_keeps_map [OF g iv] by simp
    have "\<exists>s3. print_unregistered windows k cfs ?s2 = Inr s3"
      by (simp add: print_unregistered_eq [OF sk sv2 iv2] source_from_ok [OF src])
    with g False show ?thesis
      by (auto simp: print_line_def)
  qed
qed

lemma line_calls_no_cr: "Cr \<notin> set (line_calls n v u) \<and> Flush \<notin> set (line_calls n v u)"
  by (auto simp: line_calls_def split: option.splits)


section \<open>Examples\<close>

lemmas eval_defs = write_to_stream_def check_unregistered_def check_source_def
  check_dependencies_def print_line_def print_unregistered_def source_from_def cfs_source_def
  get_id_def has_id_def handle_class_unloading_def print_def species_marker_def INT_MAX_def
  boot_def entries_def

lemma two_loaded_reached:
  "run_events windows [Load True Object_klass None, Load True Runnable_klass None]
     (boot (Some ''classes.lst'')) = Inr two_loaded"
  by (simp add: eval_defs Object_klass_def Runnable_klass_def two_loaded_def)

lemma Foo_written:
  "write_to_stream False True Foo_klass (jar_cfs ''file:/dir/foo.jar'') two_loaded =
     Inr (Ret_written, two_loaded\<lparr>id_table := Some [1 \<mapsto> 0, 2 \<mapsto> 1, 3 \<mapsto> 2], total_ids := 3,
       stream := stream two_loaded @ [Print_name_id ''Foo'' 2, Print_super 0, Print_interfaces,
          Print_intf 1, Print_source ''/dir/foo.jar'', Cr, Flush]\<rparr>)"
  by (simp add: eval_defs Foo_klass_def jar_cfs_def two_loaded_def)

lemma Foo_written_windows:
  "write_to_stream True True Foo_klass (jar_cfs ''file:/C:/dir/foo.jar'') two_loaded =
     Inr (Ret_written, two_loaded\<lparr>id_table := Some [1 \<mapsto> 0, 2 \<mapsto> 1, 3 \<mapsto> 2], total_ids := 3,
       stream := stream two_loaded @ [Print_name_id ''Foo'' 2, Print_super 0, Print_interfaces,
          Print_intf 1, Print_source ''C:/dir/foo.jar'', Cr, Flush]\<rparr>)"
  by (simp add: eval_defs Foo_klass_def jar_cfs_def two_loaded_def)

lemma Foo_line_text:
  "render [Print_name_id ''Foo'' 2, Print_super 0, Print_interfaces,
          Print_intf 1, Print_source ''/dir/foo.jar'', Cr, Flush]
   = ''Foo id: 2 super: 0 interfaces: 1 source: /dir/foo.jar'' @ [CHR 0x0A]"
  by (simp add: render_def dec_def digits.simps)

lemma Orphan_asserts:
  "write_to_stream False True Orphan_klass (jar_cfs ''file:/dir/foo.jar'') two_loaded
     = Inl Assert_super_not_null"
  by (simp add: eval_defs Orphan_klass_def jar_cfs_def two_loaded_def)

lemma write_to_stream_entries:
  assumes w: "write_to_stream windows registered k cfs s = Inr (x, s')" and p: "p \<noteq> self k"
  shows "entries s' p = entries s p"
proof (cases "x = Ret_written")
  case False
  with write_to_stream_rejected [OF w] show ?thesis by simp
next
  case True
  note ww = write_to_stream_written [OF w [unfolded True]]
  from ww have d: "check_dependencies k s = None" and pl: "print_line windows k cfs s = Inr s'"
    by simp_all
  from print_line_shape [OF d pl] obtain v s1 u where g: "get_id (self k) s = Inr (v, s1)"
    and s': "s' = s1\<lparr>stream := stream s @ line_calls (name k) v u @ [Cr, Flush]\<rparr>"
    by blast
  have "entries s' = entries s1" using s' by (simp add: entries_def)
  with get_id_Inr [OF g] p show ?thesis by simp
qed

lemma run_events_no_id:
  "run_events windows evs s = Inr s' \<Longrightarrow> \<not> has_id p s \<Longrightarrow>
   (\<forall>r k c. Load r k c \<in> set evs \<longrightarrow> self k \<noteq> p) \<Longrightarrow> \<not> has_id p s'"
proof (induction evs arbitrary: s)
  case Nil
  then show ?case by simp
next
  case (Cons ev evs)
  show ?case
  proof (cases ev)
    case (Unload q)
    have "\<not> has_id p (handle_class_unloading q s)"
      using Cons.prems(2) by (simp add: has_id_entries entries_unload)
    with Cons.IH [of "handle_class_unloading q s"] Cons.prems Unload show ?thesis
      by simp
  next
    case (Load r k c)
    with Cons.prems obtain x s1 where w: "write_to_stream windows r k c s = Inr (x, s1)"
      and run: "run_events windows evs s1 = Inr s'"
      by (auto split: sum.splits prod.splits)
    have "p \<noteq> self k" using Cons.prems(3) Load by auto
    from write_to_stream_entries [OF w this] Cons.prems(2) have "\<not> has_id p s1"
      by (simp add: has_id_entries)
    moreover have "\<forall>r k c. Load r k c \<in> set evs \<longrightarrow> self k \<noteq> p"
      using Cons.prems(3) by auto
    ultimately show ?thesis by (rule Cons.IH [OF run])
  qed
qed

lemma not_candidate_rejected:
  assumes "check_unregistered registered k cfs \<noteq> None \<or> cfs_source cfs = Some species_marker
     \<or> check_dependencies k s \<noteq> None \<or> is_hidden k \<or> module_is_patched k"
  shows "\<exists>x. x \<noteq> Ret_written \<and> write_to_stream windows registered k cfs s = Inr (x, s)"
proof -
  have a: "\<And>r. check_unregistered registered k cfs = Some r \<Longrightarrow> r \<noteq> Ret_written"
    by (auto simp: check_unregistered_def check_source_def split: if_splits option.splits)
  have b: "\<And>r. check_dependencies k s = Some r \<Longrightarrow> r \<noteq> Ret_written"
    by (auto simp: check_dependencies_def split: if_splits)
  show ?thesis
    using assms a b
    by (auto simp: write_to_stream_def split: option.splits)
qed

lemma super_without_id_rejected:
  assumes "java_super k = Some sk" and "\<not> has_id sk s"
  shows "\<exists>x. x \<noteq> Ret_written \<and> write_to_stream windows registered k cfs s = Inr (x, s)"
proof -
  have "check_dependencies k s \<noteq> None"
    using assms by (simp add: check_dependencies_def)
  then show ?thesis by (intro not_candidate_rejected) blast
qed

lemma interface_without_id_rejected:
  assumes "i \<in> set (local_interfaces k)" and "\<not> has_id i s"
  shows "\<exists>x. x \<noteq> Ret_written \<and> write_to_stream windows registered k cfs s = Inr (x, s)"
proof -
  have "check_dependencies k s \<noteq> None"
    using assms by (auto simp: check_dependencies_def interfaces_have_id_iff)
  then show ?thesis by (intro not_candidate_rejected) blast
qed

lemma scan_interfaces:
  "foldl check_call (seen, current, ok) (map Print_intf ivs)
     = (seen, current, ok \<and> set ivs \<subseteq> set seen)"
  by (induction ivs arbitrary: ok) auto

lemma scan_line:
  "foldl check_call (seen, [], ok) (line_calls n v u @ [Cr, Flush])
     = (v # seen, [], ok \<and> (case u of None \<Rightarrow> True
                              | Some (sv, ivs, p) \<Rightarrow> sv \<in> set seen \<and> set ivs \<subseteq> set seen))"
  by (cases u) (auto simp: line_calls_def scan_interfaces)

lemma log_ok_init: "log_ok (init (boot d))"
  by (cases d) (simp_all add: log_ok_def init_def entries_def boot_def)

lemma log_ok_unload: "log_ok s \<Longrightarrow> log_ok (handle_class_unloading k s)"
  by (auto simp: log_ok_def stream_unload entries_unload split: prod.splits if_splits)

lemma map_entries_seen:
  assumes "map (entries s) ks = map Some ivs" and "\<forall>k v. entries s k = Some v \<longrightarrow> v \<in> set seen"
  shows "set ivs \<subseteq> set seen"
proof
  fix v assume "v \<in> set ivs"
  then have "Some v \<in> set (map Some ivs)" by simp
  then have "Some v \<in> set (map (entries s) ks)" using assms(1) by simp
  then obtain k where "entries s k = Some v" by auto
  with assms(2) show "v \<in> set seen" by blast
qed

lemma log_ok_write_to_stream:
  assumes ok: "log_ok s" and w: "write_to_stream windows registered k cfs s = Inr (x, s')"
  shows "log_ok s'"
proof (cases "x = Ret_written")
  case False
  with write_to_stream_rejected [OF w] ok show ?thesis by simp
next
  case True
  note ww = write_to_stream_written [OF w [unfolded True]]
  from ww have d: "check_dependencies k s = None" and pl: "print_line windows k cfs s = Inr s'"
    by simp_all
  from print_line_shape [OF d pl] obtain v s1 u where g: "get_id (self k) s = Inr (v, s1)"
    and s': "s' = s1\<lparr>stream := stream s @ line_calls (name k) v u @ [Cr, Flush]\<rparr>"
    and u: "if is_builtin_loader k then u = None
         else \<exists>sk sv ivs src. u = Some (sv, ivs, drop (if windows then 6 else 5) src)
                \<and> java_super k = Some sk \<and> entries s sk = Some sv
                \<and> map (entries s) (local_interfaces k) = map Some ivs
                \<and> cfs_source cfs = Some src \<and> (if windows then 6 else 5) \<le> length src"
    by blast
  obtain seen where sc: "foldl check_call ([], [], True) (stream s) = (seen, [], True)"
    and en: "\<forall>k v. entries s k = Some v \<longrightarrow> v \<in> set seen"
    using ok by (auto simp: log_ok_def split: prod.splits)
  have refs: "case u of None \<Rightarrow> True
                | Some (sv, ivs, p) \<Rightarrow> sv \<in> set seen \<and> set ivs \<subseteq> set seen"
  proof (cases "is_builtin_loader k")
    case True
    with u show ?thesis by simp
  next
    case False
    with u obtain sk sv ivs p where x: "u = Some (sv, ivs, p)" "entries s sk = Some sv"
      "map (entries s) (local_interfaces k) = map Some ivs"
      by auto
    from x(2) en have "sv \<in> set seen" by blast
    moreover from map_entries_seen [OF x(3) en] have "set ivs \<subseteq> set seen" .
    ultimately show ?thesis using x(1) by simp
  qed
  have st: "stream s' = stream s @ line_calls (name k) v u @ [Cr, Flush]"
    using s' by simp
  have ap: "\<And>cs. foldl check_call ([], [], True) (stream s @ cs)
               = foldl check_call (seen, [], True) cs"
    by (simp add: sc)
  have sc': "foldl check_call ([], [], True) (stream s') = (v # seen, [], True)"
    unfolding st ap scan_line using refs by simp
  have e': "entries s' = (entries s)(self k \<mapsto> v)"
    using s' get_id_Inr [OF g] by (simp add: entries_def)
  show ?thesis
    unfolding log_ok_def sc' e' using en by auto
qed

lemma log_ok_run_events:
  "run_events windows evs s = Inr s' \<Longrightarrow> log_ok s \<Longrightarrow> log_ok s'"
proof (induction evs arbitrary: s)
  case Nil
  then show ?case by simp
next
  case (Cons ev evs)
  show ?case
  proof (cases ev)
    case (Unload q)
    with Cons.prems Cons.IH [of "handle_class_unloading q s"] show ?thesis
      by (simp add: log_ok_unload)
  next
    case (Load r k c)
    with Cons.prems obtain x s1 where w: "write_to_stream windows r k c s = Inr (x, s1)"
      and run: "run_events windows evs s1 = Inr s'"
      by (auto split: sum.splits prod.splits)
    from Cons.IH [OF run log_ok_write_to_stream [OF Cons.prems(2) w]] show ?thesis .
  qed
qed

lemma run_events_append:
  "run_events windows (a @ b) s =
     (case run_events windows a s of Inl e \<Rightarrow> Inl e | Inr s1 \<Rightarrow> run_events windows b s1)"
proof (induction a arbitrary: s)
  case Nil
  show ?case by simp
next
  case (Cons ev a)
  show ?case
    by (cases ev) (simp_all add: Cons.IH split: sum.splits prod.splits)
qed

lemma Foo_dropped_at_boot:
  "write_to_stream False True Foo_klass (jar_cfs ''file:/dir/foo.jar'') (boot (Some ''classes.lst''))
     = Inr (Ret_super_no_id, boot (Some ''classes.lst''))"
  by (simp add: eval_defs Foo_klass_def jar_cfs_def)

lemma Plain_after_unload:
  "run_events False [Load True Object_reloaded None] (handle_class_unloading 1 two_loaded)
     = Inr (two_loaded\<lparr>id_table := Some [2 \<mapsto> 1, 5 \<mapsto> 2], total_ids := 3,
          stream := stream two_loaded @ [Print_name_id ''java/lang/Object'' 2, Cr, Flush]\<rparr>)"
  by (simp add: eval_defs Object_reloaded_def Object_klass_def two_loaded_def fun_upd_twist)

lemma interfaces_have_id_list_all: "interfaces_have_id ks s = list_all (\<lambda>i. has_id i s) ks"
  by (induction ks) auto







lemma three_loaded_after_init:
  "run_events False [Load True Object_klass None, Load True Runnable_klass None,
       Load True Foo_klass (jar_cfs ''file:/dir/foo.jar'')] (init (boot (Some ''classes.lst'')))
   = Inr \<lparr>id_table = Some [1 \<mapsto> 0, 2 \<mapsto> 1, 3 \<mapsto> 2], total_ids = 3,
       stream = stream (init (boot (Some ''classes.lst''))) @
         [Print_name_id ''java/lang/Object'' 0, Cr, Flush,
          Print_name_id ''java/lang/Runnable'' 1, Cr, Flush,
          Print_name_id ''Foo'' 2, Print_super 0, Print_interfaces, Print_intf 1,
          Print_source ''/dir/foo.jar'', Cr, Flush],
       DumpLoadedClassList = Some ''classes.lst'', log_warnings = []\<rparr>"
  by (simp add: eval_defs init_def Object_klass_def Runnable_klass_def Foo_klass_def jar_cfs_def)

section \<open>Claims\<close>

text \<open>
  C1. Over any sequence of load and unload events after \<^verbatim>\<open>init\<close>, the log is in
  dependency order: every id of a super class or of an interface that a line prints is
  the id of the record of a strictly earlier line.
\<close>

theorem log_in_dependency_order:
  assumes "run_events windows evs (init (boot d)) = Inr s"
  shows "dependency_ordered (stream s)"
  using log_ok_run_events [OF assms log_ok_init]
  by (auto simp: log_ok_def dependency_ordered_def split: prod.splits)

theorem log_in_dependency_order_witness:
  "(\<exists>s. run_events False [Load True Object_klass None, Load True Runnable_klass None,
            Load True Foo_klass (jar_cfs ''file:/dir/foo.jar'')]
            (init (boot (Some ''classes.lst'')))
          = Inr s
        \<and> drop 5 (stream s) =
             [Print_name_id ''java/lang/Object'' 0, Cr, Flush,
              Print_name_id ''java/lang/Runnable'' 1, Cr, Flush,
              Print_name_id ''Foo'' 2, Print_super 0, Print_interfaces, Print_intf 1,
              Print_source ''/dir/foo.jar'', Cr, Flush]
        \<and> dependency_ordered (stream s))
   \<and> \<not> dependency_ordered [Print_name_id ''Foo'' 2, Print_super 0, Print_interfaces,
          Print_intf 1, Print_source ''/dir/foo.jar'', Cr, Flush]
   \<and> \<not> dependency_ordered [Print_name_id ''Foo'' 2, Print_super 2,
          Print_source ''/dir/foo.jar'', Cr, Flush]"
proof -
  let ?s = "\<lparr>id_table = Some [1 \<mapsto> 0, 2 \<mapsto> 1, 3 \<mapsto> 2], total_ids = 3,
       stream = stream (init (boot (Some ''classes.lst''))) @
         [Print_name_id ''java/lang/Object'' 0, Cr, Flush,
          Print_name_id ''java/lang/Runnable'' 1, Cr, Flush,
          Print_name_id ''Foo'' 2, Print_super 0, Print_interfaces, Print_intf 1,
          Print_source ''/dir/foo.jar'', Cr, Flush],
       DumpLoadedClassList = Some ''classes.lst'', log_warnings = []\<rparr>"
  have "dependency_ordered (stream ?s)"
    by (rule log_in_dependency_order [OF three_loaded_after_init])
  moreover have "drop 5 (stream ?s) =
             [Print_name_id ''java/lang/Object'' 0, Cr, Flush,
              Print_name_id ''java/lang/Runnable'' 1, Cr, Flush,
              Print_name_id ''Foo'' 2, Print_super 0, Print_interfaces, Print_intf 1,
              Print_source ''/dir/foo.jar'', Cr, Flush]"
    by (simp add: init_def boot_def)
  moreover have "\<not> dependency_ordered [Print_name_id ''Foo'' 2, Print_super 0, Print_interfaces,
          Print_intf 1, Print_source ''/dir/foo.jar'', Cr, Flush]"
    by (simp add: dependency_ordered_def)
  moreover have "\<not> dependency_ordered [Print_name_id ''Foo'' 2, Print_super 2,
          Print_source ''/dir/foo.jar'', Cr, Flush]"
    by (simp add: dependency_ordered_def)
  ultimately show ?thesis
    using three_loaded_after_init by blast
qed

text \<open>
  C2, as stated: the six checks run in the listed order, all of them before the
  dependency gate. It fails for a hidden class whose super class has no id:
  \<^verbatim>\<open>write_to_stream\<close> returns at line 136, in the gate, while the stated order has the
  hidden class check (line 150) reject it first.
\<close>

theorem checks_stated_order_counterexample:
  "write_to_stream False True Hidden_klass None (boot None) = Inr (Ret_super_no_id, boot None)
   \<and> check_of_exit Ret_super_no_id = Some Dependency_gate
   \<and> first_rejecting stated_order True Hidden_klass None (boot None) = Some Check_hidden"
  by (simp add: eval_defs Hidden_klass_def first_rejecting_def stated_order_def)

text \<open>
  C2, amended: the checks 1 to 4 run in the listed order, then the dependency gate, then
  the checks 5 (hidden class) and 6 (patched module). Every return of
  \<^verbatim>\<open>write_to_stream\<close> before the end is the return of the first check of this order that
  rejects the event, and the end is reached, or a failure occurs, only when none does.
\<close>

theorem checks_run_gate_before_hidden:
  "(\<forall>x s'. write_to_stream windows registered k cfs s = Inr (x, s') \<longrightarrow>
       check_of_exit x = first_rejecting gate_before_hidden_order registered k cfs s)
   \<and> (\<forall>e. write_to_stream windows registered k cfs s = Inl e \<longrightarrow>
       first_rejecting gate_before_hidden_order registered k cfs s = None)"
  by (auto simp: write_to_stream_def check_unregistered_def check_source_def
      check_dependencies_def first_rejecting_def gate_before_hidden_order_def
      interfaces_have_id_list_all
      split: option.splits if_splits sum.splits)

theorem checks_run_gate_before_hidden_witness:
  "write_to_stream False True Hidden_klass None (boot None) = Inr (Ret_super_no_id, boot None)
   \<and> first_rejecting gate_before_hidden_order True Hidden_klass None (boot None)
       = Some Dependency_gate
   \<and> write_to_stream False True Hidden_klass None two_loaded = Inr (Ret_hidden, two_loaded)
   \<and> first_rejecting gate_before_hidden_order True Hidden_klass None two_loaded
       = Some Check_hidden"
proof -
  have a: "write_to_stream False True Hidden_klass None (boot None) = Inr (Ret_super_no_id, boot None)"
    by (simp add: eval_defs Hidden_klass_def)
  have b: "write_to_stream False True Hidden_klass None two_loaded = Inr (Ret_hidden, two_loaded)"
    by (simp add: eval_defs Hidden_klass_def two_loaded_def)
  from checks_run_gate_before_hidden [of False True Hidden_klass None "boot None"] a
  have "check_of_exit Ret_super_no_id
        = first_rejecting gate_before_hidden_order True Hidden_klass None (boot None)"
    by blast
  moreover from checks_run_gate_before_hidden [of False True Hidden_klass None two_loaded] b
  have "check_of_exit Ret_hidden
        = first_rejecting gate_before_hidden_order True Hidden_klass None two_loaded"
    by blast
  ultimately show ?thesis using a b by simp
qed

text \<open>
  C3. Over any sequence of \<^verbatim>\<open>get_id\<close> and unload operations from the initial state:
  the ids given to new entries are 0, 1, 2, ... in this order, with no gap, and the
  counter is their number; the counter never decreases, and an id given after any point
  of the run is at least the counter at that point, so no value comes back after a
  removal; the table never holds one id for two classes; and an entry keeps its id as
  long as the class is not removed. A run of at most \<^verbatim>\<open>INT_MAX\<close> operations always
  returns (no overflow of the counter).
\<close>

theorem registry_ids_increasing:
  "(int (length (ops1 @ ops2)) \<le> INT_MAX \<longrightarrow>
      (\<exists>tr s. run_registry (ops1 @ ops2) (boot d) = Inr (tr, s)))
   \<and> (\<forall>tr s. run_registry (ops1 @ ops2) (boot d) = Inr (tr, s) \<longrightarrow>
        (\<exists>tr1 s1 tr2.
           run_registry ops1 (boot d) = Inr (tr1, s1) \<and> run_registry ops2 s1 = Inr (tr2, s)
           \<and> tr = tr1 @ tr2
           \<and> fresh_ids tr = map int [0..<length (fresh_ids tr)]
           \<and> total_ids s = int (length (fresh_ids tr))
           \<and> total_ids s1 = int (length (fresh_ids tr1))
           \<and> total_ids s1 \<le> total_ids s
           \<and> (\<forall>v \<in> set (fresh_ids tr2). total_ids s1 \<le> v)
           \<and> (\<forall>k v. entries s k = Some v \<longrightarrow> 0 \<le> v \<and> v < total_ids s)
           \<and> (\<forall>k1 k2 v. entries s k1 = Some v \<and> entries s k2 = Some v \<longrightarrow> k1 = k2)
           \<and> (\<forall>k v. entries s1 k = Some v \<and> Remove k \<notin> set ops2 \<longrightarrow> entries s k = Some v)))"
proof (intro conjI impI allI)
  assume "int (length (ops1 @ ops2)) \<le> INT_MAX"
  then have "total_ids (boot d) + int (length (ops1 @ ops2)) \<le> INT_MAX"
    by (simp add: boot_def)
  then show "\<exists>tr s. run_registry (ops1 @ ops2) (boot d) = Inr (tr, s)"
    by (rule run_registry_total)
next
  fix tr s
  assume run: "run_registry (ops1 @ ops2) (boot d) = Inr (tr, s)"
  then obtain tr1 s1 tr2 where r1: "run_registry ops1 (boot d) = Inr (tr1, s1)"
    and r2: "run_registry ops2 s1 = Inr (tr2, s)" and tr: "tr = tr1 @ tr2"
    by (auto simp: run_registry_append split: sum.splits prod.splits)
  have b0: "total_ids (boot d) = 0" by (simp add: boot_def)
  note f = run_registry_fresh [OF run, unfolded b0]
  note f1 = run_registry_fresh [OF r1, unfolded b0]
  note f2 = run_registry_fresh [OF r2]
  have ok: "table_ok s"
    using run_registry_table_ok [OF run table_ok_boot] .
  have later: "\<forall>v \<in> set (fresh_ids tr2). total_ids s1 \<le> v"
  proof
    fix v assume "v \<in> set (fresh_ids tr2)"
    then have "v \<in> set (map (\<lambda>i. total_ids s1 + int i) [0..<length (fresh_ids tr2)])"
      using f2 by simp
    then show "total_ids s1 \<le> v" by auto
  qed
  have keeps: "\<forall>k v. entries s1 k = Some v \<and> Remove k \<notin> set ops2 \<longrightarrow> entries s k = Some v"
    using run_registry_keeps [OF r2] by blast
  show "\<exists>tr1 s1 tr2.
           run_registry ops1 (boot d) = Inr (tr1, s1) \<and> run_registry ops2 s1 = Inr (tr2, s)
           \<and> tr = tr1 @ tr2
           \<and> fresh_ids tr = map int [0..<length (fresh_ids tr)]
           \<and> total_ids s = int (length (fresh_ids tr))
           \<and> total_ids s1 = int (length (fresh_ids tr1))
           \<and> total_ids s1 \<le> total_ids s
           \<and> (\<forall>v \<in> set (fresh_ids tr2). total_ids s1 \<le> v)
           \<and> (\<forall>k v. entries s k = Some v \<longrightarrow> 0 \<le> v \<and> v < total_ids s)
           \<and> (\<forall>k1 k2 v. entries s k1 = Some v \<and> entries s k2 = Some v \<longrightarrow> k1 = k2)
           \<and> (\<forall>k v. entries s1 k = Some v \<and> Remove k \<notin> set ops2 \<longrightarrow> entries s k = Some v)"
  proof (intro exI conjI)
    show "run_registry ops1 (boot d) = Inr (tr1, s1)" by (rule r1)
    show "run_registry ops2 s1 = Inr (tr2, s)" by (rule r2)
    show "tr = tr1 @ tr2" by (rule tr)
    show "fresh_ids tr = map int [0..<length (fresh_ids tr)]" using f by simp
    show "total_ids s = int (length (fresh_ids tr))" using f by simp
    show "total_ids s1 = int (length (fresh_ids tr1))" using f1 by simp
    show "total_ids s1 \<le> total_ids s" using f2 by simp
    show "\<forall>v \<in> set (fresh_ids tr2). total_ids s1 \<le> v" by (rule later)
    show "\<forall>k v. entries s k = Some v \<longrightarrow> 0 \<le> v \<and> v < total_ids s"
      using ok unfolding table_ok_def by blast
    show "\<forall>k1 k2 v. entries s k1 = Some v \<and> entries s k2 = Some v \<longrightarrow> k1 = k2"
      using ok unfolding table_ok_def by blast
    show "\<forall>k v. entries s1 k = Some v \<and> Remove k \<notin> set ops2 \<longrightarrow> entries s k = Some v"
      by (rule keeps)
  qed
qed

theorem registry_ids_increasing_witness:
  "int (length ([Get_id 5, Get_id 6, Remove 5] @ [Get_id 5, Get_id 6])) \<le> INT_MAX
   \<and> (\<exists>s. run_registry ([Get_id 5, Get_id 6, Remove 5] @ [Get_id 5, Get_id 6]) (boot None)
             = Inr ([(5, 0, True), (6, 1, True), (5, 2, True), (6, 1, False)], s)
          \<and> fresh_ids [(5, 0, True), (6, 1, True), (5, 2, True), (6, 1, False)] = [0, 1, 2]
          \<and> total_ids s = 3 \<and> entries s 5 = Some 2 \<and> entries s 6 = Some 1)"
proof -
  obtain s where r: "run_registry ([Get_id 5, Get_id 6, Remove 5] @ [Get_id 5, Get_id 6]) (boot None)
        = Inr ([(5, 0, True), (6, 1, True), (5, 2, True), (6, 1, False)], s)"
    and e: "entries s 5 = Some 2" "entries s 6 = Some 1"
    using registry_run_example by blast
  have "total_ids s = int (length (fresh_ids [(5, 0, True), (6, 1, True), (5, 2, True), (6, 1, False)]))"
    using registry_ids_increasing [of "[Get_id 5, Get_id 6, Remove 5]" "[Get_id 5, Get_id 6]" None] r
    by blast
  then have "total_ids s = 3" by (simp add: fresh_ids_def)
  with r e show ?thesis
    by (auto simp: fresh_ids_def INT_MAX_def)
qed

text \<open>
  C4. A class that fails a check of the filter, or whose super class or one of whose
  interfaces has no id, is rejected: the call returns before the end, and such a call
  leaves the whole state as it was: no call on the stream, no id, the same table and
  counter. Nothing records the rejection, so the run goes on as if the event had not
  happened, and the class has no id at the end of any sequence of events that does not
  load it again, whatever ids its super class obtains meanwhile.
\<close>

theorem rejected_event_leaves_no_trace:
  "((check_unregistered registered k cfs \<noteq> None \<or> cfs_source cfs = Some species_marker
       \<or> check_dependencies k s \<noteq> None \<or> is_hidden k \<or> module_is_patched k
       \<or> (\<exists>sk. java_super k = Some sk \<and> \<not> has_id sk s)
       \<or> (\<exists>i \<in> set (local_interfaces k). \<not> has_id i s))
      \<longrightarrow> (\<exists>x. x \<noteq> Ret_written \<and> write_to_stream windows registered k cfs s = Inr (x, s)))
   \<and> (\<forall>x s'. write_to_stream windows registered k cfs s = Inr (x, s') \<and> x \<noteq> Ret_written \<longrightarrow>
         s' = s
         \<and> run_events windows (Load registered k cfs # evs) s = run_events windows evs s
         \<and> (\<forall>s''. run_events windows evs s = Inr s'' \<and> \<not> has_id (self k) s
                 \<and> (\<forall>r k' c. Load r k' c \<in> set evs \<longrightarrow> self k' \<noteq> self k)
               \<longrightarrow> \<not> has_id (self k) s''))"
proof (intro conjI impI allI)
  assume "check_unregistered registered k cfs \<noteq> None \<or> cfs_source cfs = Some species_marker
       \<or> check_dependencies k s \<noteq> None \<or> is_hidden k \<or> module_is_patched k
       \<or> (\<exists>sk. java_super k = Some sk \<and> \<not> has_id sk s)
       \<or> (\<exists>i \<in> set (local_interfaces k). \<not> has_id i s)"
  then show "\<exists>x. x \<noteq> Ret_written \<and> write_to_stream windows registered k cfs s = Inr (x, s)"
    using not_candidate_rejected [of registered k cfs s windows]
      super_without_id_rejected [of k _ s windows registered cfs]
      interface_without_id_rejected [of _ k s windows registered cfs]
    by blast
next
  fix x s'
  assume a: "write_to_stream windows registered k cfs s = Inr (x, s') \<and> x \<noteq> Ret_written"
  then show s': "s' = s"
    using write_to_stream_rejected by blast
  show "run_events windows (Load registered k cfs # evs) s = run_events windows evs s"
    using a s' by simp
next
  fix x s' s''
  assume "run_events windows evs s = Inr s'' \<and> \<not> has_id (self k) s
                 \<and> (\<forall>r k' c. Load r k' c \<in> set evs \<longrightarrow> self k' \<noteq> self k)"
  then show "\<not> has_id (self k) s''"
    using run_events_no_id [of windows evs s s'' "self k"] by blast
qed

theorem rejected_event_leaves_no_trace_witness:
  "java_super Foo_klass = Some 1 \<and> \<not> has_id 1 (boot (Some ''classes.lst''))
   \<and> write_to_stream False True Foo_klass (jar_cfs ''file:/dir/foo.jar'') (boot (Some ''classes.lst''))
       = Inr (Ret_super_no_id, boot (Some ''classes.lst''))
   \<and> run_events False [Load True Foo_klass (jar_cfs ''file:/dir/foo.jar''),
        Load True Object_klass None, Load True Runnable_klass None] (boot (Some ''classes.lst''))
       = Inr two_loaded
   \<and> has_id 1 two_loaded \<and> \<not> has_id 3 two_loaded
   \<and> stream two_loaded = [Print_name_id ''java/lang/Object'' 0, Cr, Flush,
                           Print_name_id ''java/lang/Runnable'' 1, Cr, Flush]"
proof -
  let ?evs = "[Load True Object_klass None, Load True Runnable_klass None]"
  let ?b = "boot (Some ''classes.lst'')"
  have j: "java_super Foo_klass = Some 1" by (simp add: Foo_klass_def)
  have n: "\<not> has_id 1 ?b" by (simp add: has_id_def boot_def)
  have n3: "\<not> has_id (self Foo_klass) ?b" by (simp add: has_id_def boot_def)
  have others: "\<forall>r k' c. Load r k' c \<in> set ?evs \<longrightarrow> self k' \<noteq> self Foo_klass"
    by (auto simp: Object_klass_def Runnable_klass_def Foo_klass_def)
  note t = rejected_event_leaves_no_trace [of True Foo_klass "jar_cfs ''file:/dir/foo.jar''" ?b False ?evs]
  have r: "run_events False (Load True Foo_klass (jar_cfs ''file:/dir/foo.jar'') # ?evs) ?b
           = run_events False ?evs ?b"
    using t Foo_dropped_at_boot by blast
  have "\<not> has_id (self Foo_klass) two_loaded"
    using t Foo_dropped_at_boot two_loaded_reached [of False] n3 others by blast
  then have "\<not> has_id 3 two_loaded" by (simp add: Foo_klass_def)
  moreover have "has_id 1 two_loaded" by (simp add: has_id_def two_loaded_def)
  moreover have "stream two_loaded = [Print_name_id ''java/lang/Object'' 0, Cr, Flush,
                           Print_name_id ''java/lang/Runnable'' 1, Cr, Flush]"
    by (simp add: two_loaded_def)
  ultimately show ?thesis
    using j n Foo_dropped_at_boot r two_loaded_reached [of False] by simp
qed

text \<open>
  C5. \<^verbatim>\<open>get_id\<close> is idempotent for a class that is still in the table: when \<open>k\<close> has an
  entry, \<^verbatim>\<open>get_id\<close> returns its id and leaves the whole state, the counter included, as
  it was, so a second call returns the same id again. For any call that returns, a second
  call returns the same id and changes nothing, and the counter has advanced by one exactly
  when the first call created the entry.
\<close>

theorem get_id_idempotent:
  "(has_id k s \<longrightarrow> (\<exists>v. entries s k = Some v \<and> get_id k s = Inr (v, s)))
   \<and> (\<forall>v s1. get_id k s = Inr (v, s1) \<longrightarrow>
        get_id k s1 = Inr (v, s1)
        \<and> total_ids s1 = total_ids s + (if has_id k s then 0 else 1))"
proof (intro conjI impI allI)
  assume "has_id k s"
  then obtain v where v: "entries s k = Some v"
    by (auto simp: has_id_entries)
  then show "\<exists>v. entries s k = Some v \<and> get_id k s = Inr (v, s)"
    by (simp add: get_id_old)
next
  fix v s1
  assume g: "get_id k s = Inr (v, s1)"
  show "get_id k s1 = Inr (v, s1)"
    using g by (rule get_id_twice)
  show "total_ids s1 = total_ids s + (if has_id k s then 0 else 1)"
    using get_id_Inr [OF g] by simp
qed

theorem get_id_idempotent_witness:
  "\<not> has_id 7 (boot None)
   \<and> (\<exists>s1. get_id 7 (boot None) = Inr (0, s1) \<and> has_id 7 s1
          \<and> get_id 7 s1 = Inr (0, s1) \<and> total_ids s1 = 1)"
proof -
  have n: "\<not> has_id 7 (boot None)"
    by (simp add: has_id_def boot_def)
  have "\<exists>s1. get_id 7 (boot None) = Inr (0, s1)"
    by (simp add: get_id_def boot_def INT_MAX_def)
  then obtain s1 where g: "get_id 7 (boot None) = Inr (0, s1)" ..
  have h: "has_id 7 s1"
    using get_id_Inr [OF g] by (simp add: has_id_entries)
  have "get_id 7 s1 = Inr (0, s1) \<and> total_ids s1 = total_ids (boot None) + (if has_id 7 (boot None) then 0 else 1)"
    using get_id_idempotent [of 7 "boot None"] g by blast
  then show ?thesis
    using n g h by (auto simp: boot_def)
qed

text \<open>
  C6. \<^verbatim>\<open>has_id\<close> is true exactly when the table is allocated and holds an entry for the
  class: false in the initial state, true after \<^verbatim>\<open>get_id\<close>, false again after the
  unload notification. After the unload of a class, and after any further events that do
  not write a class at that same address (a reloaded class is another
  \<^verbatim>\<open>InstanceKlass\<close>), the class still has no id and a class whose super class it is
  gets no line: the call returns early and changes nothing.
\<close>

theorem has_id_follows_table:
  "(has_id k s = (\<exists>t v. id_table s = Some t \<and> t k = Some v))
   \<and> \<not> has_id k (boot d)
   \<and> (\<forall>v s1. get_id k s = Inr (v, s1) \<longrightarrow>
         has_id k s1 \<and> \<not> has_id k (handle_class_unloading k s1))
   \<and> \<not> has_id k (handle_class_unloading k s)
   \<and> (\<forall>s'. run_events windows evs (handle_class_unloading k s) = Inr s'
            \<and> (\<forall>r k' c. Load r k' c \<in> set evs \<longrightarrow> self k' \<noteq> k)
            \<and> java_super c = Some k
          \<longrightarrow> \<not> has_id k s'
              \<and> (\<exists>x. x \<noteq> Ret_written \<and> write_to_stream windows registered c cfs s' = Inr (x, s')))"
proof (intro conjI impI allI)
  show "has_id k s = (\<exists>t v. id_table s = Some t \<and> t k = Some v)"
    by (auto simp: has_id_def split: option.splits)
  show "\<not> has_id k (boot d)"
    by (simp add: has_id_entries entries_boot)
  have u: "\<not> has_id k (handle_class_unloading k t)" for t
    by (simp add: has_id_entries entries_unload)
  show "\<not> has_id k (handle_class_unloading k s)"
    by (rule u)
  fix v s1 assume "get_id k s = Inr (v, s1)"
  from get_id_Inr [OF this] show "has_id k s1"
    by (simp add: has_id_entries)
  show "\<not> has_id k (handle_class_unloading k s1)"
    by (rule u)
next
  fix s'
  assume a: "run_events windows evs (handle_class_unloading k s) = Inr s'
            \<and> (\<forall>r k' c. Load r k' c \<in> set evs \<longrightarrow> self k' \<noteq> k)
            \<and> java_super c = Some k"
  have "\<not> has_id k (handle_class_unloading k s)"
    by (simp add: has_id_entries entries_unload)
  with a show n: "\<not> has_id k s'"
    using run_events_no_id [of windows evs "handle_class_unloading k s" s' k] by blast
  from a have "java_super c = Some k" by simp
  from super_without_id_rejected [OF this n]
  show "\<exists>x. x \<noteq> Ret_written \<and> write_to_stream windows registered c cfs s' = Inr (x, s')" .
qed

theorem has_id_follows_table_witness:
  "has_id 1 two_loaded \<and> \<not> has_id 1 (handle_class_unloading 1 two_loaded)
   \<and> java_super Plain_klass = Some 1
   \<and> (\<exists>s'. run_events False [Load True Object_reloaded None] (handle_class_unloading 1 two_loaded)
             = Inr s'
          \<and> has_id 5 s' \<and> \<not> has_id 1 s'
          \<and> write_to_stream False True Plain_klass None s' = Inr (Ret_super_no_id, s'))"
proof -
  let ?s' = "two_loaded\<lparr>id_table := Some [2 \<mapsto> 1, 5 \<mapsto> 2], total_ids := 3,
          stream := stream two_loaded @ [Print_name_id ''java/lang/Object'' 2, Cr, Flush]\<rparr>"
  have j: "java_super Plain_klass = Some 1" by (simp add: Plain_klass_def)
  have o: "\<forall>r k' c. Load r k' c \<in> set [Load True Object_reloaded None] \<longrightarrow> self k' \<noteq> 1"
    by (simp add: Object_reloaded_def)
  note t = has_id_follows_table [of 1 two_loaded None False "[Load True Object_reloaded None]"
      Plain_klass True None]
  have h: "has_id 1 two_loaded" by (simp add: has_id_def two_loaded_def)
  have u: "\<not> has_id 1 (handle_class_unloading 1 two_loaded)" using t by blast
  have n: "\<not> has_id 1 ?s'"
    and x: "\<exists>x. x \<noteq> Ret_written \<and> write_to_stream False True Plain_klass None ?s' = Inr (x, ?s')"
    using t Plain_after_unload o j by blast+
  have w: "write_to_stream False True Plain_klass None ?s' = Inr (Ret_super_no_id, ?s')"
    using x n j by (auto simp: write_to_stream_def check_unregistered_def Plain_klass_def
        cfs_source_def check_dependencies_def)
  have h5: "has_id 5 ?s'" by (simp add: has_id_def)
  from h u j Plain_after_unload h5 n w show ?thesis by blast
qed

text \<open>
  C7. For every class of a loader that is not builtin whose line is written, the source
  starts with \<^verbatim>\<open>file:\<close> and the source field printed, the last field of the line, is
  the source without its first 5 characters, or without its first 6 under
  \<^verbatim>\<open>_WINDOWS\<close>: \<^verbatim>\<open>file:/dir/foo.jar\<close> is printed as \<^verbatim>\<open>/dir/foo.jar\<close>, and on Windows
  \<^verbatim>\<open>file:/C:/dir/foo.jar\<close> as \<^verbatim>\<open>C:/dir/foo.jar\<close> (both are evaluated below).
\<close>

theorem source_prefix_stripped:
  assumes "write_to_stream windows registered k cfs s = Inr (Ret_written, s')"
    and "\<not> is_builtin_loader k"
  shows "\<exists>src pre. cfs_source cfs = Some src \<and> take 5 src = ''file:''
           \<and> (if windows then 6 else 5) \<le> length src
           \<and> stream s' = stream s @ pre
                @ [Print_source (drop (if windows then 6 else 5) src), Cr, Flush]
           \<and> (\<forall>p. Print_source p \<notin> set pre)"
proof -
  note ww = write_to_stream_written [OF assms(1)]
  from ww have d: "check_dependencies k s = None" and p: "print_line windows k cfs s = Inr s'"
    and cu: "check_unregistered registered k cfs = None"
    by simp_all
  from check_unregistered_None [OF cu assms(2)] obtain src0 where
    src0: "cfs_source cfs = Some src0" "take 5 src0 = ''file:''"
    by blast
  from print_line_shape [OF d p] assms(2) obtain v s1 sv ivs src where
    s': "s' = s1\<lparr>stream := stream s @ line_calls (name k) v
            (Some (sv, ivs, drop (if windows then 6 else 5) src)) @ [Cr, Flush]\<rparr>"
    and src: "cfs_source cfs = Some src" "(if windows then 6 else 5) \<le> length src"
    by auto
  let ?pre = "Print_name_id (name k) v # Print_super sv
      # (if ivs = [] then [] else Print_interfaces # map Print_intf ivs)"
  have "stream s' = stream s @ ?pre @ [Print_source (drop (if windows then 6 else 5) src), Cr, Flush]"
    using s' by (simp add: line_calls_def)
  moreover have "\<forall>p. Print_source p \<notin> set ?pre"
    by auto
  moreover have "take 5 src = ''file:''"
    using src src0 by simp
  ultimately show ?thesis
    using src by (intro exI [of _ src] exI [of _ ?pre]) simp
qed

theorem source_prefix_stripped_witness:
  "\<not> is_builtin_loader Foo_klass
   \<and> (\<exists>s' pre. write_to_stream False True Foo_klass (jar_cfs ''file:/dir/foo.jar'') two_loaded
                  = Inr (Ret_written, s')
          \<and> stream s' = stream two_loaded @ pre @ [Print_source ''/dir/foo.jar'', Cr, Flush])
   \<and> (\<exists>s' pre. write_to_stream True True Foo_klass (jar_cfs ''file:/C:/dir/foo.jar'') two_loaded
                  = Inr (Ret_written, s')
          \<and> stream s' = stream two_loaded @ pre @ [Print_source ''C:/dir/foo.jar'', Cr, Flush])"
proof -
  have nb: "\<not> is_builtin_loader Foo_klass"
    by (simp add: Foo_klass_def)
  have c1: "cfs_source (jar_cfs ''file:/dir/foo.jar'') = Some ''file:/dir/foo.jar''"
    and c2: "cfs_source (jar_cfs ''file:/C:/dir/foo.jar'') = Some ''file:/C:/dir/foo.jar''"
    by (simp_all add: cfs_source_def jar_cfs_def)
  from source_prefix_stripped [OF Foo_written nb] c1
  have "\<exists>pre. stream (two_loaded\<lparr>id_table := Some [1 \<mapsto> 0, 2 \<mapsto> 1, 3 \<mapsto> 2], total_ids := 3,
       stream := stream two_loaded @ [Print_name_id ''Foo'' 2, Print_super 0, Print_interfaces,
          Print_intf 1, Print_source ''/dir/foo.jar'', Cr, Flush]\<rparr>)
     = stream two_loaded @ pre @ [Print_source ''/dir/foo.jar'', Cr, Flush]"
    by auto
  with Foo_written have a: "\<exists>s' pre. write_to_stream False True Foo_klass (jar_cfs ''file:/dir/foo.jar'') two_loaded
                  = Inr (Ret_written, s')
          \<and> stream s' = stream two_loaded @ pre @ [Print_source ''/dir/foo.jar'', Cr, Flush]"
    by blast
  from source_prefix_stripped [OF Foo_written_windows nb] c2
  have "\<exists>pre. stream (two_loaded\<lparr>id_table := Some [1 \<mapsto> 0, 2 \<mapsto> 1, 3 \<mapsto> 2], total_ids := 3,
       stream := stream two_loaded @ [Print_name_id ''Foo'' 2, Print_super 0, Print_interfaces,
          Print_intf 1, Print_source ''C:/dir/foo.jar'', Cr, Flush]\<rparr>)
     = stream two_loaded @ pre @ [Print_source ''C:/dir/foo.jar'', Cr, Flush]"
    by auto
  with Foo_written_windows have b: "\<exists>s' pre. write_to_stream True True Foo_klass (jar_cfs ''file:/C:/dir/foo.jar'') two_loaded
                  = Inr (Ret_written, s')
          \<and> stream s' = stream two_loaded @ pre @ [Print_source ''C:/dir/foo.jar'', Cr, Flush]"
    by blast
  from nb a b show ?thesis by blast
qed

text \<open>
  C8. A class that passes the filter and the dependency check gets exactly one line,
  followed by a flush: the call is completed by \<^verbatim>\<open>cr\<close> and \<^verbatim>\<open>flush\<close>, and the calls
  before them, which hold no \<^verbatim>\<open>cr\<close>, print the name and the id and, for a class of a
  loader that is not builtin, in this order the id of the super class, the ids of the
  interfaces in declaration order (the field is absent when there is none), and the
  source without its prefix. The text printed is \<open>line_text\<close>. The call returns whenever
  the counter does not overflow, a class of a loader that is not builtin has a super
  class, and the source is as long as the prefix skipped.
\<close>

theorem written_line_format:
  "(check_unregistered registered k cfs = None \<and> cfs_source cfs \<noteq> Some species_marker
      \<and> check_dependencies k s = None \<and> \<not> is_hidden k \<and> \<not> module_is_patched k
      \<and> (has_id (self k) s \<or> total_ids s \<noteq> INT_MAX)
      \<and> (\<not> is_builtin_loader k \<longrightarrow>
            java_super k \<noteq> None
            \<and> (\<exists>src. cfs_source cfs = Some src \<and> (if windows then 6 else 5) \<le> length src))
    \<longrightarrow> (\<exists>s'. write_to_stream windows registered k cfs s = Inr (Ret_written, s')))
   \<and> (\<forall>s'. write_to_stream windows registered k cfs s = Inr (Ret_written, s') \<longrightarrow>
        (\<exists>v u. entries s' (self k) = Some v
           \<and> stream s' = stream s @ line_calls (name k) v u @ [Cr, Flush]
           \<and> Cr \<notin> set (line_calls (name k) v u) \<and> Flush \<notin> set (line_calls (name k) v u)
           \<and> render (line_calls (name k) v u @ [Cr, Flush]) = line_text (name k) v u
           \<and> (if is_builtin_loader k then u = None
              else \<exists>sk sv ivs src.
                     u = Some (sv, ivs, drop (if windows then 6 else 5) src)
                     \<and> java_super k = Some sk \<and> entries s' sk = Some sv
                     \<and> map (entries s') (local_interfaces k) = map Some ivs
                     \<and> cfs_source cfs = Some src)))"
proof (intro conjI impI allI)
  assume a: "check_unregistered registered k cfs = None \<and> cfs_source cfs \<noteq> Some species_marker
      \<and> check_dependencies k s = None \<and> \<not> is_hidden k \<and> \<not> module_is_patched k
      \<and> (has_id (self k) s \<or> total_ids s \<noteq> INT_MAX)
      \<and> (\<not> is_builtin_loader k \<longrightarrow>
            java_super k \<noteq> None
            \<and> (\<exists>src. cfs_source cfs = Some src \<and> (if windows then 6 else 5) \<le> length src))"
  then obtain s' where "print_line windows k cfs s = Inr s'"
    using print_line_total [of k s cfs windows] by blast
  with a show "\<exists>s'. write_to_stream windows registered k cfs s = Inr (Ret_written, s')"
    by (simp add: write_to_stream_passes)
next
  fix s'
  assume w: "write_to_stream windows registered k cfs s = Inr (Ret_written, s')"
  note ww = write_to_stream_written [OF w]
  from ww have d: "check_dependencies k s = None" and p: "print_line windows k cfs s = Inr s'"
    by simp_all
  from print_line_shape [OF d p] obtain v s1 u where g: "get_id (self k) s = Inr (v, s1)"
    and s': "s' = s1\<lparr>stream := stream s @ line_calls (name k) v u @ [Cr, Flush]\<rparr>"
    and u: "if is_builtin_loader k then u = None
         else \<exists>sk sv ivs src. u = Some (sv, ivs, drop (if windows then 6 else 5) src)
                \<and> java_super k = Some sk \<and> entries s sk = Some sv
                \<and> map (entries s) (local_interfaces k) = map Some ivs
                \<and> cfs_source cfs = Some src \<and> (if windows then 6 else 5) \<le> length src"
    by blast
  have e': "entries s' = entries s1"
    using s' by (simp add: entries_def)
  have v: "entries s' (self k) = Some v"
    using get_id_Inr [OF g] e' by simp
  have u': "if is_builtin_loader k then u = None
              else \<exists>sk sv ivs src.
                     u = Some (sv, ivs, drop (if windows then 6 else 5) src)
                     \<and> java_super k = Some sk \<and> entries s' sk = Some sv
                     \<and> map (entries s') (local_interfaces k) = map Some ivs
                     \<and> cfs_source cfs = Some src"
  proof (cases "is_builtin_loader k")
    case True
    with u show ?thesis by simp
  next
    case False
    with u obtain sk sv ivs src where x: "u = Some (sv, ivs, drop (if windows then 6 else 5) src)"
      "java_super k = Some sk" "entries s sk = Some sv"
      "map (entries s) (local_interfaces k) = map Some ivs" "cfs_source cfs = Some src"
      by auto
    have "entries s' sk = Some sv"
      using get_id_keeps [OF g x(3)] e' by simp
    moreover have "map (entries s') (local_interfaces k) = map Some ivs"
      using get_id_keeps_map [OF g x(4)] e' by simp
    ultimately show ?thesis using False x by auto
  qed
  show "\<exists>v u. entries s' (self k) = Some v
           \<and> stream s' = stream s @ line_calls (name k) v u @ [Cr, Flush]
           \<and> Cr \<notin> set (line_calls (name k) v u) \<and> Flush \<notin> set (line_calls (name k) v u)
           \<and> render (line_calls (name k) v u @ [Cr, Flush]) = line_text (name k) v u
           \<and> (if is_builtin_loader k then u = None
              else \<exists>sk sv ivs src.
                     u = Some (sv, ivs, drop (if windows then 6 else 5) src)
                     \<and> java_super k = Some sk \<and> entries s' sk = Some sv
                     \<and> map (entries s') (local_interfaces k) = map Some ivs
                     \<and> cfs_source cfs = Some src)"
    using v s' u' line_calls_no_cr [of "name k" v u] render_line [of "name k" v u]
    by (intro exI [of _ v] exI [of _ u]) simp
qed



theorem written_line_format_witness:
  "check_unregistered True Foo_klass (jar_cfs ''file:/dir/foo.jar'') = None
   \<and> cfs_source (jar_cfs ''file:/dir/foo.jar'') \<noteq> Some species_marker
   \<and> check_dependencies Foo_klass two_loaded = None
   \<and> \<not> is_hidden Foo_klass \<and> \<not> module_is_patched Foo_klass
   \<and> total_ids two_loaded \<noteq> INT_MAX
   \<and> \<not> is_builtin_loader Foo_klass \<and> java_super Foo_klass \<noteq> None
   \<and> (\<exists>s'. write_to_stream False True Foo_klass (jar_cfs ''file:/dir/foo.jar'') two_loaded
              = Inr (Ret_written, s')
          \<and> entries s' 3 = Some 2
          \<and> stream s' = stream two_loaded @
               [Print_name_id ''Foo'' 2, Print_super 0, Print_interfaces, Print_intf 1,
                Print_source ''/dir/foo.jar'', Cr, Flush]
          \<and> render (drop (length (stream two_loaded)) (stream s'))
              = ''Foo id: 2 super: 0 interfaces: 1 source: /dir/foo.jar'' @ [CHR 0x0A])"
proof -
  have h: "check_unregistered True Foo_klass (jar_cfs ''file:/dir/foo.jar'') = None
      \<and> cfs_source (jar_cfs ''file:/dir/foo.jar'') \<noteq> Some species_marker
      \<and> check_dependencies Foo_klass two_loaded = None
      \<and> \<not> is_hidden Foo_klass \<and> \<not> module_is_patched Foo_klass
      \<and> (has_id (self Foo_klass) two_loaded \<or> total_ids two_loaded \<noteq> INT_MAX)
      \<and> (\<not> is_builtin_loader Foo_klass \<longrightarrow>
            java_super Foo_klass \<noteq> None
            \<and> (\<exists>src. cfs_source (jar_cfs ''file:/dir/foo.jar'') = Some src
                   \<and> (if False then 6 else 5) \<le> length src))"
    by (simp add: eval_defs Foo_klass_def jar_cfs_def two_loaded_def)
  from written_line_format [of True Foo_klass "jar_cfs ''file:/dir/foo.jar''" two_loaded False] h
  obtain s' where w: "write_to_stream False True Foo_klass (jar_cfs ''file:/dir/foo.jar'') two_loaded
              = Inr (Ret_written, s')"
    by blast
  have s': "s' = two_loaded\<lparr>id_table := Some [1 \<mapsto> 0, 2 \<mapsto> 1, 3 \<mapsto> 2], total_ids := 3,
       stream := stream two_loaded @ [Print_name_id ''Foo'' 2, Print_super 0, Print_interfaces,
          Print_intf 1, Print_source ''/dir/foo.jar'', Cr, Flush]\<rparr>"
    using w unfolding Foo_written by simp
  have "entries s' 3 = Some 2" unfolding s' by (simp add: entries_def)
  moreover have "stream s' = stream two_loaded @
               [Print_name_id ''Foo'' 2, Print_super 0, Print_interfaces, Print_intf 1,
                Print_source ''/dir/foo.jar'', Cr, Flush]"
    unfolding s' by simp
  moreover have "render (drop (length (stream two_loaded)) (stream s'))
              = ''Foo id: 2 super: 0 interfaces: 1 source: /dir/foo.jar'' @ [CHR 0x0A]"
    unfolding s' by (simp add: Foo_line_text)
  moreover have "total_ids two_loaded \<noteq> INT_MAX"
    by (simp add: two_loaded_def INT_MAX_def)
  moreover have "\<not> is_builtin_loader Foo_klass \<and> java_super Foo_klass \<noteq> None"
    by (simp add: Foo_klass_def)
  ultimately show ?thesis
    using h w by blast
qed




text \<open>
  C10. The dependency check never stops a class whose super class is null, and stops a
  class with a super class exactly when that super class has no id. A class of a loader
  that is not builtin, with a null super class, that passes every check runs into the
  assertion of line 161. When every class of a loader that is not builtin has a super
  class, that assertion cannot fail, and every line written for such a class has the id
  of the super class right after the name and id.
\<close>

theorem super_assert_unreachable:
  "(java_super k = None \<longrightarrow> check_dependencies k s \<noteq> Some Ret_super_no_id)
   \<and> (\<forall>sk. java_super k = Some sk \<longrightarrow>
         (check_dependencies k s = Some Ret_super_no_id) = (\<not> has_id sk s))
   \<and> (\<not> is_builtin_loader k \<and> java_super k = None
        \<and> check_unregistered registered k cfs = None \<and> cfs_source cfs \<noteq> Some species_marker
        \<and> check_dependencies k s = None \<and> \<not> is_hidden k \<and> \<not> module_is_patched k
        \<and> (has_id (self k) s \<or> total_ids s \<noteq> INT_MAX)
      \<longrightarrow> write_to_stream windows registered k cfs s = Inl Assert_super_not_null)
   \<and> ((\<not> is_builtin_loader k \<longrightarrow> java_super k \<noteq> None) \<longrightarrow>
        write_to_stream windows registered k cfs s \<noteq> Inl Assert_super_not_null
        \<and> (\<forall>s'. write_to_stream windows registered k cfs s = Inr (Ret_written, s')
                 \<and> \<not> is_builtin_loader k \<longrightarrow>
              (\<exists>v sk sv post. java_super k = Some sk \<and> entries s sk = Some sv
                 \<and> stream s' = stream s @ [Print_name_id (name k) v, Print_super sv] @ post)))"
proof (intro conjI impI allI)
  assume "java_super k = None"
  then show "check_dependencies k s \<noteq> Some Ret_super_no_id"
    by (simp add: check_dependencies_def)
next
  fix sk assume "java_super k = Some sk"
  then show "(check_dependencies k s = Some Ret_super_no_id) = (\<not> has_id sk s)"
    by (simp add: check_dependencies_def)
next
  assume a: "\<not> is_builtin_loader k \<and> java_super k = None
        \<and> check_unregistered registered k cfs = None \<and> cfs_source cfs \<noteq> Some species_marker
        \<and> check_dependencies k s = None \<and> \<not> is_hidden k \<and> \<not> module_is_patched k
        \<and> (has_id (self k) s \<or> total_ids s \<noteq> INT_MAX)"
  then have "print_line windows k cfs s = Inl Assert_super_not_null"
    by (simp add: print_line_assert)
  with a show "write_to_stream windows registered k cfs s = Inl Assert_super_not_null"
    by (simp add: write_to_stream_passes)
next
  assume "\<not> is_builtin_loader k \<longrightarrow> java_super k \<noteq> None"
  then have "print_line windows k cfs s \<noteq> Inl Assert_super_not_null"
    by (intro print_line_no_assert) blast
  then show "write_to_stream windows registered k cfs s \<noteq> Inl Assert_super_not_null"
    using write_to_stream_Inl by blast
next
  fix s'
  assume "write_to_stream windows registered k cfs s = Inr (Ret_written, s') \<and> \<not> is_builtin_loader k"
  then have w: "write_to_stream windows registered k cfs s = Inr (Ret_written, s')"
    and nb: "\<not> is_builtin_loader k" by simp_all
  note ww = write_to_stream_written [OF w]
  from ww have d: "check_dependencies k s = None" and p: "print_line windows k cfs s = Inr s'"
    by simp_all
  from print_line_shape [OF d p] nb obtain v s1 sk sv ivs src where
    s': "s' = s1\<lparr>stream := stream s @ line_calls (name k) v
            (Some (sv, ivs, drop (if windows then 6 else 5) src)) @ [Cr, Flush]\<rparr>"
    and sk: "java_super k = Some sk" "entries s sk = Some sv"
    by auto
  have "stream s' = stream s @ [Print_name_id (name k) v, Print_super sv]
      @ ((if ivs = [] then [] else Print_interfaces # map Print_intf ivs)
         @ [Print_source (drop (if windows then 6 else 5) src), Cr, Flush])"
    using s' by (simp add: line_calls_def)
  with sk show "\<exists>v sk sv post. java_super k = Some sk \<and> entries s sk = Some sv
                 \<and> stream s' = stream s @ [Print_name_id (name k) v, Print_super sv] @ post"
    by blast
qed


theorem super_assert_unreachable_witness:
  "java_super Object_klass = None
   \<and> check_dependencies Object_klass (boot (Some ''classes.lst'')) = None
   \<and> \<not> is_builtin_loader Foo_klass \<and> java_super Foo_klass = Some 1
   \<and> has_id 1 two_loaded
   \<and> check_dependencies Foo_klass two_loaded \<noteq> Some Ret_super_no_id
   \<and> write_to_stream False True Foo_klass (jar_cfs ''file:/dir/foo.jar'') two_loaded
        \<noteq> Inl Assert_super_not_null
   \<and> (\<exists>s' post. write_to_stream False True Foo_klass (jar_cfs ''file:/dir/foo.jar'') two_loaded
                   = Inr (Ret_written, s')
          \<and> stream s' = stream two_loaded @ [Print_name_id ''Foo'' 2, Print_super 0] @ post)
   \<and> \<not> is_builtin_loader Orphan_klass \<and> java_super Orphan_klass = None
   \<and> write_to_stream False True Orphan_klass (jar_cfs ''file:/dir/foo.jar'') two_loaded
        = Inl Assert_super_not_null"
proof -
  note t = super_assert_unreachable [of Foo_klass two_loaded True "jar_cfs ''file:/dir/foo.jar''" False]
  have f: "\<not> is_builtin_loader Foo_klass" "java_super Foo_klass = Some 1"
    by (simp_all add: Foo_klass_def)
  have h: "has_id 1 two_loaded"
    by (simp add: has_id_def two_loaded_def)
  have g: "check_dependencies Foo_klass two_loaded \<noteq> Some Ret_super_no_id"
    using t f h by simp
  have na: "write_to_stream False True Foo_klass (jar_cfs ''file:/dir/foo.jar'') two_loaded
        \<noteq> Inl Assert_super_not_null"
    using t f by simp
  have w: "\<exists>s' post. write_to_stream False True Foo_klass (jar_cfs ''file:/dir/foo.jar'') two_loaded
                   = Inr (Ret_written, s')
          \<and> stream s' = stream two_loaded @ [Print_name_id ''Foo'' 2, Print_super 0] @ post"
    unfolding Foo_written by simp
  have o: "java_super Object_klass = None"
    "check_dependencies Object_klass (boot (Some ''classes.lst'')) = None"
    by (simp_all add: Object_klass_def check_dependencies_def)
  have r: "\<not> is_builtin_loader Orphan_klass" "java_super Orphan_klass = None"
    by (simp_all add: Orphan_klass_def)
  from o f h g na w r Orphan_asserts show ?thesis by blast
qed

end
